theory Spec2Isabelle
  imports Main "HOL-Library.Word"
begin

section \<open>Shared types\<close>

text \<open>
  Go's \<open>uint64\<close> is a 64-bit word: \<open>+\<close> wraps around and the order is the unsigned one.
  \<open>common.Address\<close> is a 20-byte array. A Go \<open>error\<close> value is compared by identity:
  \<open>ethereum.ErrNotFound\<close> is one distinguished value. \<open>common.Hash\<close> is a 32-byte array.
\<close>

type_synonym uint64 = "64 word"
type_synonym address = "160 word"

type_synonym hash = "256 word"

text \<open>
  \<open>errors.New(text)\<close> and \<open>fmt.Errorf(format, args...)\<close> make new error values;
  \<open>log.Printf\<close> takes the same kind of arguments. The format string and its arguments
  are kept as they are written in the source, unformatted.
\<close>

datatype error = ErrNotFound | ErrorNew string | Errorf string "fmtarg list"
  and fmtarg = VError error | VInt int | VNat nat

text \<open>
  A \<open>*big.Int\<close> is an unbounded integer, \<open>int\<close>; where the pointer may be nil it is
  an \<open>int option\<close>. \<open>Sign\<close> and \<open>Cmp\<close> are the methods of \<open>math/big\<close>.
\<close>

definition Sign :: "int \<Rightarrow> int" where
  "Sign x = (if x < 0 then - 1 else if x = 0 then 0 else 1)"

definition Cmp :: "int \<Rightarrow> int \<Rightarrow> int" where
  "Cmp x y = (if x < y then - 1 else if x = y then 0 else 1)"

section \<open>backend/backend.go: HandleNonceBackend\<close>

text \<open>
  \<open>types.Transaction\<close> belongs to the upstream library. The decorator reads two things
  from it: \<open>tx.Nonce()\<close> and the result of
  \<open>types.Sender(types.NewEIP155Signer(tx.ChainId()), tx)\<close>, which is either an error or
  the recovered address. Both are fields of the model's transaction.
\<close>

record types_Transaction =
  Nonce :: uint64
  Sender :: "error + address"

text \<open>
  The field \<open>inner\<close> is an interface value owned by the caller. What the inner backend
  answers to a call is an argument (\<open>inner_result\<close>) of each method of the model, so
  that every theorem holds for every inner backend, every context and every moment.
\<close>

record HandleNonceBackend =
  addressNonce :: "address \<rightharpoonup> uint64"

definition NewHandleNonceBackend :: "address list \<Rightarrow> HandleNonceBackend" where
  "NewHandleNonceBackend handleAddresses =
     \<lparr>addressNonce = fold (\<lambda>address m. m(address \<mapsto> 0)) handleAddresses Map.empty\<rparr>"

definition PendingNonceAt ::
  "error + uint64 \<Rightarrow> address \<Rightarrow> HandleNonceBackend \<Rightarrow> (error + uint64) \<times> HandleNonceBackend" where
  "PendingNonceAt inner_result account b =
     (case inner_result of
        Inl err \<Rightarrow> (Inl err, b)
      | Inr nonce \<Rightarrow>
          (case addressNonce b account of
             None \<Rightarrow> (Inr nonce, b)
           | Some innerNonce \<Rightarrow>
               if nonce > innerNonce
               then (Inr nonce, b\<lparr>addressNonce := (addressNonce b)(account \<mapsto> nonce)\<rparr>)
               else (Inr innerNonce, b)))"

definition incrementNonce :: "types_Transaction \<Rightarrow> HandleNonceBackend \<Rightarrow> HandleNonceBackend" where
  "incrementNonce tx b =
     (case Sender tx of
        Inl err \<Rightarrow> b
      | Inr from \<Rightarrow>
          (case addressNonce b from of
             None \<Rightarrow> b
           | Some innerNonce \<Rightarrow>
               (let nonce = Nonce tx + 1
                in if nonce > innerNonce
                   then b\<lparr>addressNonce := (addressNonce b)(from \<mapsto> nonce)\<rparr>
                   else b)))"

definition SendTransaction ::
  "error option \<Rightarrow> types_Transaction \<Rightarrow> HandleNonceBackend \<Rightarrow> error option \<times> HandleNonceBackend" where
  "SendTransaction inner_result tx b =
     (case inner_result of
        Some err \<Rightarrow> (Some err, b)
      | None \<Rightarrow> (None, incrementNonce tx b))"

text \<open>
  The ten remaining methods (\<open>CodeAt\<close>, \<open>CallContract\<close>, \<open>PendingCodeAt\<close>,
  \<open>SuggestGasPrice\<close>, \<open>EstimateGas\<close>, \<open>TransactionReceipt\<close>, \<open>BalanceAt\<close>,
  \<open>FilterLogs\<close>, \<open>SubscribeFilterLogs\<close>, \<open>TransactionByHash\<close>) have the same body:
  \<open>return b.inner.M(...)\<close>.
\<close>

datatype forwarded =
  Fwd_CodeAt | Fwd_CallContract | Fwd_PendingCodeAt | Fwd_SuggestGasPrice | Fwd_EstimateGas
  | Fwd_TransactionReceipt | Fwd_BalanceAt | Fwd_FilterLogs | Fwd_SubscribeFilterLogs
  | Fwd_TransactionByHash

definition passthrough :: "forwarded \<Rightarrow> 'r \<Rightarrow> HandleNonceBackend \<Rightarrow> 'r \<times> HandleNonceBackend" where
  "passthrough m inner_result b = (inner_result, b)"

text \<open>A sequential use of the decorator: a list of calls, each with the inner backend's answer.\<close>

datatype call =
  CallPendingNonceAt address "error + uint64"
  | CallSendTransaction types_Transaction "error option"
  | CallPassthrough forwarded

fun apply_call :: "call \<Rightarrow> HandleNonceBackend \<Rightarrow> HandleNonceBackend" where
  "apply_call (CallPendingNonceAt account r) b = snd (PendingNonceAt r account b)"
| "apply_call (CallSendTransaction tx r) b = snd (SendTransaction r tx b)"
| "apply_call (CallPassthrough m) b = snd (passthrough m () b)"

fun run_calls :: "call list \<Rightarrow> HandleNonceBackend \<Rightarrow> HandleNonceBackend" where
  "run_calls [] b = b"
| "run_calls (c # cs) b = run_calls cs (apply_call c b)"

text \<open>Repeated \<open>PendingNonceAt(account)\<close>, one inner answer per call; the results in order.\<close>

fun PendingNonceAt_calls ::
  "address \<Rightarrow> (error + uint64) list \<Rightarrow> HandleNonceBackend \<Rightarrow> (error + uint64) list" where
  "PendingNonceAt_calls account [] b = []"
| "PendingNonceAt_calls account (r # rs) b =
     fst (PendingNonceAt r account b) # PendingNonceAt_calls account rs (snd (PendingNonceAt r account b))"

section \<open>blocksource/blocksource.go: BlockSource\<close>

text \<open>
  Of \<open>ethereum.Block\<close> the loop reads the field \<open>Number\<close> only (never nil: the header's
  decoder requires it).
\<close>

record Block =
  Number :: int
  Timestamp :: int

text \<open>
  \<open>Config.Confirmations\<close> is a \<open>uint\<close>, 64 bits wide on the usual platforms, and the loop
  converts it with \<open>int64(cfg.Confirmations)\<close>, the two's complement reading \<open>sint\<close>.
\<close>

record Config =
  StartBlock :: "int option"
  Confirmations :: "64 word"

definition needToGetMostRecentBlockNumber :: "int option \<Rightarrow> int option \<Rightarrow> int \<Rightarrow> bool" where
  "needToGetMostRecentBlockNumber currentBlockNumber recentBlockNumber confirmations =
     (Sign confirmations = 1 \<and>
      (case recentBlockNumber of
         None \<Rightarrow> True
       | Some recent \<Rightarrow>
           Cmp recent confirmations = - 1 \<or>
           (case currentBlockNumber of
              None \<Rightarrow> False
            | Some current \<Rightarrow> Cmp (current + confirmations) recent = 1)))"

text \<open>
  \<open>Client.BlockNumber\<close> (the client package): its argument is the outcome of the RPC call
  \<open>eth_blockNumber\<close>; on an error the returned number is nil.
\<close>

definition BlockNumber :: "error + int \<Rightarrow> int option \<times> error option" where
  "BlockNumber rpc =
     (case rpc of
        Inl err \<Rightarrow> (None, Some (Errorf ''eth_blockNumber: %v'' [VError err]))
      | Inr number \<Rightarrow> (Some number, None))"

text \<open>
  The local variables of the goroutine started by \<open>runAsync\<close>; \<open>confirmations\<close> is fixed
  and passed beside them.
\<close>

record cursor =
  recentBlkNumber :: "int option"
  currBlkNumber :: "int option"
  delayBeforeIteration :: bool

text \<open>
  What the world does during one iteration of the loop: whether \<open>ctx.Done()\<close> wins the
  \<open>select\<close> of the delay, the outcome of the \<open>eth_blockNumber\<close> call, what
  \<open>Client.BlockByNumber\<close> returns for the requested number (nil, here \<open>None\<close>, asks for
  the latest block), and whether the consumer takes the block (otherwise \<open>ctx.Done()\<close>
  wins the second \<open>select\<close>). Each is read only if the iteration gets there.
\<close>

record answers =
  ctxDone :: bool
  BlockNumber_rpc :: "error + int"
  BlockByNumber_result :: "int option \<Rightarrow> error + Block"
  consumed :: bool

text \<open>What an iteration does that is visible outside the goroutine, in order.\<close>

datatype event =
  Slept
  | CalledBlockNumber
  | CalledBlockByNumber "int option"
  | LogPrintf string "fmtarg list"
  | Delivered Block

datatype status = Continue | Return

text \<open>Lines 117 to 119 of the loop: an unset cursor starts at the head minus the depth.\<close>

definition startFromRecent :: "int \<Rightarrow> cursor \<Rightarrow> cursor" where
  "startFromRecent confirmations s =
     (case (recentBlkNumber s, currBlkNumber s) of
        (Some recent, None) \<Rightarrow> s\<lparr>currBlkNumber := Some (recent - confirmations)\<rparr>
      | _ \<Rightarrow> s)"

text \<open>Lines 117 to 138 of the loop: set the cursor if needed, fetch, deliver.\<close>

definition iteration_fetch :: "int \<Rightarrow> answers \<Rightarrow> cursor \<Rightarrow> event list \<times> status \<times> cursor" where
  "iteration_fetch confirmations a s =
     (let s1 = startFromRecent confirmations s
      in case BlockByNumber_result a (currBlkNumber s1) of
           Inl err \<Rightarrow>
             (CalledBlockByNumber (currBlkNumber s1) #
                (if err \<noteq> ErrNotFound then [LogPrintf ''BlockByNumber: %v'' [VError err]] else []),
              Continue, s1\<lparr>delayBeforeIteration := True\<rparr>)
         | Inr b \<Rightarrow>
             (let s2 = s1\<lparr>currBlkNumber := Some (Number b + 1)\<rparr>
              in if consumed a
                 then ([CalledBlockByNumber (currBlkNumber s1), Delivered b], Continue, s2)
                 else ([CalledBlockByNumber (currBlkNumber s1)], Return, s2)))"

text \<open>One pass through the body of the \<open>for\<close> loop (lines 93 to 139).\<close>

definition iteration :: "int \<Rightarrow> answers \<Rightarrow> cursor \<Rightarrow> event list \<times> status \<times> cursor" where
  "iteration confirmations a s0 =
     (if delayBeforeIteration s0 \<and> ctxDone a then ([], Return, s0)
      else
        (let slept = (if delayBeforeIteration s0 then [Slept] else []);
             s = s0\<lparr>delayBeforeIteration := False\<rparr>
         in if needToGetMostRecentBlockNumber (currBlkNumber s) (recentBlkNumber s) confirmations
            then (case BlockNumber (BlockNumber_rpc a) of
                    (recent, Some err) \<Rightarrow>
                      (slept @ [CalledBlockNumber, LogPrintf ''BlockNumber: %v'' [VError err]],
                       Continue, s\<lparr>recentBlkNumber := recent, delayBeforeIteration := True\<rparr>)
                  | (recent, None) \<Rightarrow>
                      (let s1 = s\<lparr>recentBlkNumber := recent\<rparr>
                       in if needToGetMostRecentBlockNumber (currBlkNumber s1) (recentBlkNumber s1)
                               confirmations
                          then (slept @ [CalledBlockNumber], Continue,
                                s1\<lparr>delayBeforeIteration := True\<rparr>)
                          else (case iteration_fetch confirmations a s1 of
                                  (ev, st, s') \<Rightarrow> (slept @ CalledBlockNumber # ev, st, s'))))
            else (case iteration_fetch confirmations a s of
                    (ev, st, s') \<Rightarrow> (slept @ ev, st, s'))))"

text \<open>
  The loop never ends by itself. A run is followed over a finite list of answers, one per
  iteration: it stops at \<open>return\<close> or when the list is used up, so every theorem about
  \<open>loop\<close> speaks of every finite prefix of every run.
\<close>

fun loop :: "int \<Rightarrow> answers list \<Rightarrow> cursor \<Rightarrow> event list \<times> status \<times> cursor" where
  "loop confirmations [] s = ([], Continue, s)"
| "loop confirmations (a # as) s =
     (case iteration confirmations a s of
        (ev, Return, s') \<Rightarrow> (ev, Return, s')
      | (ev, Continue, s') \<Rightarrow>
          (case loop confirmations as s' of (ev', st, s'') \<Rightarrow> (ev @ ev', st, s'')))"

definition runAsync :: "Config \<Rightarrow> answers list \<Rightarrow> event list \<times> status \<times> cursor" where
  "runAsync cfg as =
     (let confirmations = sint (Confirmations cfg)
      in loop confirmations as
           \<lparr>recentBlkNumber = None, currBlkNumber = StartBlock cfg, delayBeforeIteration = False\<rparr>)"

fun delivered :: "event list \<Rightarrow> Block list" where
  "delivered [] = []"
| "delivered (Delivered b # ev) = b # delivered ev"
| "delivered (_ # ev) = delivered ev"

text \<open>
  The contract of the node's \<open>eth_getBlockByNumber\<close>: asked for an explicit height, it
  answers with the block of that height. The loop takes \<open>b.Number\<close> from the answer and
  does not compare it with the height it asked for.
\<close>

definition returns_requested :: "answers \<Rightarrow> bool" where
  "returns_requested a = (\<forall>h b. BlockByNumber_result a (Some h) = Inr b \<longrightarrow> Number b = h)"

text \<open>Events that are neither a block request, nor a log line, nor a delivery.\<close>

definition quiet :: "event list \<Rightarrow> bool" where
  "quiet pre = (set pre \<subseteq> {Slept, CalledBlockNumber})"

text \<open>
  Three nodes for concrete runs: one whose chain has the blocks up to \<open>latest\<close> and which
  reports the head \<open>head\<close>; one that cannot be reached; one that answers every request
  with the block \<open>n\<close>.
\<close>

definition node :: "int \<Rightarrow> int \<Rightarrow> answers" where
  "node head latest =
     \<lparr>ctxDone = False, BlockNumber_rpc = Inr head,
      BlockByNumber_result = (\<lambda>number. case number of
          None \<Rightarrow> Inr \<lparr>Number = latest, Timestamp = 0\<rparr>
        | Some h \<Rightarrow> if h \<le> latest then Inr \<lparr>Number = h, Timestamp = 0\<rparr> else Inl ErrNotFound),
      consumed = True\<rparr>"

definition unreachable :: answers where
  "unreachable =
     \<lparr>ctxDone = False, BlockNumber_rpc = Inl (ErrorNew ''connection refused''),
      BlockByNumber_result = (\<lambda>number. Inl (ErrorNew ''connection refused'')),
      consumed = True\<rparr>"

definition any_block :: "int \<Rightarrow> answers" where
  "any_block n =
     \<lparr>ctxDone = False, BlockNumber_rpc = Inr n,
      BlockByNumber_result = (\<lambda>number. Inr \<lparr>Number = n, Timestamp = 0\<rparr>),
      consumed = True\<rparr>"

section \<open>gasestimator/gaspriceestimator.go: GasPriceEstimator\<close>

text \<open>
  \<open>gasPrice\<close> is never nil: the constructor stores a fetched value and the loop stores only
  a value it has just compared. \<open>closeOnce\<close> is the \<open>sync.Once\<close> (has it run),
  \<open>closed\<close> the channel (is it closed), and \<open>running\<close> says that the goroutine of
  \<open>runAsync\<close> has not returned yet, which is what \<open>wg.Wait()\<close> waits for. The mutex is
  held only inside a step of the model.
\<close>

record GasPriceEstimator =
  gasPrice :: int
  closeOnce :: bool
  closed :: bool
  running :: bool

definition newGasPriceEstimator :: "int \<Rightarrow> GasPriceEstimator" where
  "newGasPriceEstimator initGasPrice =
     \<lparr>gasPrice = initGasPrice, closeOnce = False, closed = False, running = True\<rparr>"

definition SuggestGasPrice :: "GasPriceEstimator \<Rightarrow> int" where
  "SuggestGasPrice e = gasPrice e"

text \<open>
  What the world does during one iteration of the estimator's loop: whether
  \<open>ctx.Done()\<close> wins the \<open>select\<close> (it can only once \<open>closed\<close> is closed, which
  cancels the context), and what \<open>e.gasPricer.SuggestGasPrice(ctx)\<close> returns.
\<close>

record tick =
  ctxDoneFirst :: bool
  SuggestGasPrice_result :: "error + int"

definition estimator_iteration ::
  "tick \<Rightarrow> GasPriceEstimator \<Rightarrow> event list \<times> status \<times> GasPriceEstimator" where
  "estimator_iteration t e =
     (if closed e \<and> ctxDoneFirst t then ([], Return, e\<lparr>running := False\<rparr>)
      else
        (case SuggestGasPrice_result t of
           Inl err \<Rightarrow>
             ([Slept, LogPrintf ''gasestimator: SuggestGasPrice: %v'' [VError err]], Continue, e)
         | Inr newGasPrice \<Rightarrow>
             (let curGasPrice = SuggestGasPrice e
              in ([Slept], Continue,
                  if Cmp curGasPrice newGasPrice \<noteq> 0 then e\<lparr>gasPrice := newGasPrice\<rparr> else e))))"

fun estimator_loop ::
  "tick list \<Rightarrow> GasPriceEstimator \<Rightarrow> event list \<times> status \<times> GasPriceEstimator" where
  "estimator_loop [] e = ([], Continue, e)"
| "estimator_loop (t # ts) e =
     (case estimator_iteration t e of
        (ev, Return, e') \<Rightarrow> (ev, Return, e')
      | (ev, Continue, e') \<Rightarrow>
          (case estimator_loop ts e' of (ev', st, e'') \<Rightarrow> (ev @ ev', st, e'')))"

text \<open>
  \<open>Close\<close>: \<open>closeOnce.Do\<close> runs its function at most once. The function closes the
  channel (closing a closed channel panics) and waits for the goroutine, which meanwhile
  goes through the iterations \<open>final\<close>; \<open>Close\<close> returns when the goroutine has returned
  and stays blocked as long as it has not.
\<close>

datatype 'a outcome = Returned 'a | Blocked | Panicked string

definition Close :: "tick list \<Rightarrow> GasPriceEstimator \<Rightarrow> GasPriceEstimator outcome" where
  "Close final e =
     (if closeOnce e then Returned e
      else if closed e then Panicked ''close of closed channel''
      else
        (case estimator_loop final (e\<lparr>closed := True\<rparr>) of
           (ev, Return, e') \<Rightarrow> Returned (e'\<lparr>closeOnce := True\<rparr>)
         | (ev, Continue, e') \<Rightarrow> Blocked))"

text \<open>
  What can happen to an estimator, in sequence: a call of \<open>Close\<close>, a call of
  \<open>SuggestGasPrice\<close>, and an iteration of the goroutine if it is still running. \<open>uses\<close>
  gives the values the calls of \<open>SuggestGasPrice\<close> return and the estimator at the end.
\<close>

datatype use = UseClose "tick list" | UseSuggestGasPrice | Background tick

fun uses :: "use list \<Rightarrow> GasPriceEstimator \<Rightarrow> (int list \<times> GasPriceEstimator) outcome" where
  "uses [] e = Returned ([], e)"
| "uses (UseClose final # us) e =
     (case Close final e of
        Returned e' \<Rightarrow> uses us e'
      | Blocked \<Rightarrow> Blocked
      | Panicked m \<Rightarrow> Panicked m)"
| "uses (UseSuggestGasPrice # us) e =
     (case uses us e of
        Returned (vs, e') \<Rightarrow> Returned (SuggestGasPrice e # vs, e')
      | Blocked \<Rightarrow> Blocked
      | Panicked m \<Rightarrow> Panicked m)"
| "uses (Background t # us) e =
     uses us (if running e then snd (snd (estimator_iteration t e)) else e)"

fun reads :: "use list \<Rightarrow> nat" where
  "reads [] = 0"
| "reads (UseSuggestGasPrice # us) = Suc (reads us)"
| "reads (_ # us) = reads us"

text \<open>Once \<open>closeOnce\<close> has run, the channel is closed and the goroutine has returned.\<close>

definition shut :: "GasPriceEstimator \<Rightarrow> bool" where
  "shut e = (closeOnce e \<longrightarrow> closed e \<and> \<not> running e)"

section \<open>The client package: receipts of a block's transactions\<close>

text \<open>
  Of \<open>ethereum.Transaction\<close> the receipt loop of \<open>getBlock\<close> reads \<open>Hash\<close> and writes
  \<open>GasUsed\<close>, \<open>Status\<close> and \<open>ContractAddress\<close>; \<open>rpcReceipt\<close> has the three fields it
  copies from.
\<close>

record Transaction =
  Hash :: hash
  GasUsed :: "int option"
  Status :: "nat option"
  ContractAddress :: "address option"

record rpcReceipt =
  Status :: "nat option"
  ContractAddress :: "address option"
  GasUsed :: "int option"

text \<open>
  A panic is \<open>Inl\<close> with its message. The loop of \<open>chunkTransactions\<close> runs only after
  the check of \<open>chunkSize\<close>; the guard \<open>0 < chunkSize\<close> in \<open>chunk_loop\<close> restates it for
  the termination proof. Indices and lengths are \<open>nat\<close>: a slice of pointers is far too
  short for \<open>i + chunkSize\<close> to leave the range of \<open>int\<close>. \<open>txs[i:end]\<close> is
  \<open>take (end - i) (drop i txs)\<close>.
\<close>

function chunk_loop :: "'a list \<Rightarrow> nat \<Rightarrow> nat \<Rightarrow> 'a list list \<Rightarrow> 'a list list" where
  "chunk_loop txs chunkSize i chunks =
     (if 0 < chunkSize \<and> i < length txs
      then (let end = (if i + chunkSize > length txs then length txs else i + chunkSize)
            in chunk_loop txs chunkSize (i + chunkSize) (chunks @ [take (end - i) (drop i txs)]))
      else chunks)"
  by pat_completeness auto
termination
  by (relation "measure (\<lambda>(txs, chunkSize, i, chunks). length txs - i)") auto

declare chunk_loop.simps [simp del]

definition chunkTransactions :: "'a list \<Rightarrow> int \<Rightarrow> string + 'a list list" where
  "chunkTransactions txs chunkSize =
     (if chunkSize \<le> 0 then Inl ''chunk size must be positive number''
      else Inr (chunk_loop txs (nat chunkSize) 0 []))"

text \<open>
  \<open>BatchCallContext(ctx, reqs)\<close> is the node's: given the offset of the chunk and the hashes
  asked for, it fails as a whole or fills every element with an error or a result, and
  the result may be null.
\<close>

type_synonym batch = "nat \<Rightarrow> hash list \<Rightarrow> error + (nat \<Rightarrow> error + rpcReceipt option)"

text \<open>The response validation of one chunk, from index \<open>i\<close> on.\<close>

fun validate :: "int \<Rightarrow> nat \<Rightarrow> nat \<Rightarrow> (error + rpcReceipt option) list \<Rightarrow> error + rpcReceipt list" where
  "validate number chunkOffset i [] = Inr []"
| "validate number chunkOffset i (req # reqs) =
     (case req of
        Inl err \<Rightarrow>
          Inl (Errorf ''request error for transaction %d of block %v: %v''
                 [VNat (chunkOffset + i), VInt number, VError err])
      | Inr None \<Rightarrow>
          Inl (Errorf ''got null receipt for transaction %d of block %v''
                 [VNat (chunkOffset + i), VInt number])
      | Inr (Some receipt) \<Rightarrow>
          (case validate number chunkOffset (Suc i) reqs of
             Inl e \<Rightarrow> Inl e
           | Inr receipts \<Rightarrow> Inr (receipt # receipts)))"

text \<open>
  The loop over the chunks (lines 94 to 127 of \<open>getBlock\<close>). It returns the batches it has
  sent, each as the list of hashes asked for, and the receipts or the error. Reading
  \<open>btxs[globalIdx]\<close> beyond the slice panics.
\<close>

fun loadChunks ::
  "batch \<Rightarrow> int \<Rightarrow> Transaction list \<Rightarrow> Transaction list list \<Rightarrow> nat \<Rightarrow>
   string + (hash list list \<times> (error + rpcReceipt list))" where
  "loadChunks rpc number btxs [] chunkOffset = Inr ([], Inr [])"
| "loadChunks rpc number btxs (chunkTxs # chunks) chunkOffset =
     (let chunkLen = length chunkTxs
      in if chunkOffset + chunkLen > length btxs then Inl ''index out of range''
         else
           (let reqs = map (\<lambda>i. Hash (btxs ! (chunkOffset + i))) [0..<chunkLen]
            in case rpc chunkOffset reqs of
                 Inl err \<Rightarrow>
                   Inr ([reqs],
                        Inl (Errorf ''getting transaction receipts (offset: %d, len: %d): %v''
                               [VNat chunkOffset, VNat chunkLen, VError err]))
               | Inr answer \<Rightarrow>
                   (case validate number chunkOffset 0 (map answer [0..<chunkLen]) of
                      Inl e \<Rightarrow> Inr ([reqs], Inl e)
                    | Inr receipts \<Rightarrow>
                        (case loadChunks rpc number btxs chunks (chunkOffset + chunkLen) of
                           Inl p \<Rightarrow> Inl p
                         | Inr (sent, Inl e) \<Rightarrow> Inr (reqs # sent, Inl e)
                         | Inr (sent, Inr rest) \<Rightarrow> Inr (reqs # sent, Inr (receipts @ rest))))))"

definition assignReceipt :: "Transaction \<Rightarrow> rpcReceipt \<Rightarrow> Transaction" where
  "assignReceipt btx rcpt =
     btx\<lparr>Transaction.GasUsed := rpcReceipt.GasUsed rcpt,
         Transaction.Status :=
           (if rpcReceipt.Status rcpt \<noteq> None then rpcReceipt.Status rcpt
            else Transaction.Status btx),
         Transaction.ContractAddress :=
           (if rpcReceipt.ContractAddress rcpt \<noteq> None then rpcReceipt.ContractAddress rcpt
            else Transaction.ContractAddress btx)\<rparr>"

text \<open>
  Lines 89 to 139 of \<open>getBlock\<close>: the receipts of the transactions \<open>btxs\<close> of the block
  with the given number, in chunks of 500.
\<close>

definition loadReceipts ::
  "batch \<Rightarrow> int \<Rightarrow> Transaction list \<Rightarrow> string + (hash list list \<times> (error + Transaction list))" where
  "loadReceipts rpc number btxs =
     (let txLen = length btxs
      in if txLen > 0
         then (case chunkTransactions btxs 500 of
                 Inl p \<Rightarrow> Inl p
               | Inr chunks \<Rightarrow>
                   (case loadChunks rpc number btxs chunks 0 of
                      Inl p \<Rightarrow> Inl p
                    | Inr (sent, Inl e) \<Rightarrow> Inr (sent, Inl e)
                    | Inr (sent, Inr receipts) \<Rightarrow>
                        Inr (sent, Inr (map (\<lambda>(btx, rcpt). assignReceipt btx rcpt) (zip btxs receipts)))))
         else Inr ([], Inr btxs))"

text \<open>
  A batch succeeds when the call returns no error and every element has a receipt.
  \<open>batches_ok\<close> says it of consecutive batches, each at the offset the earlier ones
  leave, and \<open>expected_sent\<close> lists the batches up to and including the first that does
  not succeed.
\<close>

definition batch_ok :: "batch \<Rightarrow> nat \<Rightarrow> hash list \<Rightarrow> bool" where
  "batch_ok rpc chunkOffset reqs =
     (case rpc chunkOffset reqs of
        Inl err \<Rightarrow> False
      | Inr answer \<Rightarrow>
          list_all (\<lambda>i. case answer i of Inr (Some receipt) \<Rightarrow> True | _ \<Rightarrow> False) [0..<length reqs])"

fun batches_ok :: "batch \<Rightarrow> nat \<Rightarrow> hash list list \<Rightarrow> bool" where
  "batches_ok rpc chunkOffset [] = True"
| "batches_ok rpc chunkOffset (reqs # rest) =
     (batch_ok rpc chunkOffset reqs \<and> batches_ok rpc (chunkOffset + length reqs) rest)"

fun expected_sent :: "batch \<Rightarrow> nat \<Rightarrow> hash list list \<Rightarrow> hash list list" where
  "expected_sent rpc chunkOffset [] = []"
| "expected_sent rpc chunkOffset (reqs # rest) =
     reqs # (if batch_ok rpc chunkOffset reqs then expected_sent rpc (chunkOffset + length reqs) rest
             else [])"

text \<open>A transaction, a node that fails every batch call and one that answers every request.\<close>

definition tx0 :: Transaction where
  "tx0 = \<lparr>Hash = 0, GasUsed = None, Status = None, ContractAddress = None\<rparr>"

definition node_down :: batch where
  "node_down = (\<lambda>chunkOffset reqs. Inl (ErrorNew ''timeout''))"

definition node_up :: batch where
  "node_up = (\<lambda>chunkOffset reqs. Inr (\<lambda>i.
      Inr (Some \<lparr>Status = Some 1, ContractAddress = None, GasUsed = Some 21000\<rparr>)))"

section \<open>Facts about the watermark table\<close>

lemma PendingNonceAt_watched:
  assumes "addressNonce b a = Some w"
  shows "\<exists>w'. addressNonce (snd (PendingNonceAt r account b)) a = Some w' \<and> w \<le> w'"
  using assms
  by (auto simp: PendingNonceAt_def split: sum.splits option.splits)

lemma incrementNonce_watched:
  assumes "addressNonce b a = Some w"
  shows "\<exists>w'. addressNonce (incrementNonce tx b) a = Some w' \<and> w \<le> w'"
  using assms
  by (auto simp: incrementNonce_def Let_def split: sum.splits option.splits)

lemma apply_call_watched:
  assumes "addressNonce b a = Some w"
  shows "\<exists>w'. addressNonce (apply_call c b) a = Some w' \<and> w \<le> w'"
proof (cases c)
  case (CallPendingNonceAt account r)
  then show ?thesis using PendingNonceAt_watched [OF assms] by simp
next
  case (CallSendTransaction tx r)
  then show ?thesis
    using incrementNonce_watched [OF assms] assms
    by (cases r) (simp_all add: SendTransaction_def)
next
  case (CallPassthrough m)
  then show ?thesis using assms by (simp add: passthrough_def)
qed

lemma run_calls_watched:
  "addressNonce b a = Some w \<Longrightarrow> \<exists>w'. addressNonce (run_calls cs b) a = Some w' \<and> w \<le> w'"
proof (induction cs arbitrary: b w)
  case Nil
  then show ?case by simp
next
  case (Cons c cs)
  from apply_call_watched [OF Cons.prems]
  obtain w1 where w1: "addressNonce (apply_call c b) a = Some w1" "w \<le> w1" by blast
  from Cons.IH [OF w1(1)]
  obtain w2 where "addressNonce (run_calls cs (apply_call c b)) a = Some w2" "w1 \<le> w2" by blast
  with w1(2) show ?case by auto
qed

lemma PendingNonceAt_result:
  assumes "addressNonce b a = Some w"
  shows "fst (PendingNonceAt (Inr v) a b) = Inr (max v w)"
    and "addressNonce (snd (PendingNonceAt (Inr v) a b)) a = Some (max v w)"
  using assms by (auto simp: PendingNonceAt_def max_def)

lemma PendingNonceAt_calls_sorted:
  "addressNonce b a = Some w \<Longrightarrow>
   \<exists>rs. PendingNonceAt_calls a (map Inr vs) b = map Inr rs \<and> length rs = length vs
        \<and> sorted rs \<and> (\<forall>r \<in> set rs. w \<le> r) \<and> (\<forall>i < length vs. vs ! i \<le> rs ! i)"
proof (induction vs arbitrary: b w)
  case Nil
  then show ?case by simp
next
  case (Cons v vs)
  let ?b = "snd (PendingNonceAt (Inr v) a b)"
  have st: "addressNonce ?b a = Some (max v w)"
    and res: "fst (PendingNonceAt (Inr v) a b) = Inr (max v w)"
    using PendingNonceAt_result [OF Cons.prems] by auto
  from Cons.IH [OF st] obtain rs where rs:
    "PendingNonceAt_calls a (map Inr vs) ?b = map Inr rs" "length rs = length vs"
    "sorted rs" "\<forall>r \<in> set rs. max v w \<le> r" "\<forall>i < length vs. vs ! i \<le> rs ! i"
    by blast
  have 1: "PendingNonceAt_calls a (map Inr (v # vs)) b = map Inr (max v w # rs)"
    using res rs(1) by simp
  have 2: "sorted (max v w # rs)" using rs(3,4) by simp
  have 3: "\<forall>r \<in> set (max v w # rs). w \<le> r" using rs(4) by auto
  have 4: "\<forall>i < length (v # vs). (v # vs) ! i \<le> (max v w # rs) ! i"
  proof (intro allI impI)
    fix i assume "i < length (v # vs)"
    then show "(v # vs) ! i \<le> (max v w # rs) ! i"
      using rs(5) by (cases i) auto
  qed
  show ?case using 1 2 3 4 rs(2) by (intro exI [of _ "max v w # rs"]) simp
qed

lemma unat_succ_uint64: "(n::uint64) \<noteq> - 1 \<Longrightarrow> unat (n + 1) = unat n + 1"
  by (metis Suc_eq_plus1 add.commute add_eq_0_iff unatSuc)

section \<open>Claims about HandleNonceBackend\<close>

text \<open>
  C1. When the inner \<open>PendingNonceAt(A)\<close> succeeds with value \<open>v\<close>: if \<open>A\<close> is not in the
  watched set the decorator returns \<open>v\<close> and changes nothing; if \<open>A\<close> is watched with
  stored watermark \<open>w\<close> it returns \<open>max v w\<close>, and the table is updated at \<open>A\<close> to \<open>v\<close>
  when \<open>v > w\<close> and is left as it was otherwise.
\<close>

theorem C1_PendingNonceAt_success:
  "(addressNonce b A = None \<longrightarrow> PendingNonceAt (Inr v) A b = (Inr v, b)) \<and>
   (addressNonce b A = Some w \<longrightarrow>
      fst (PendingNonceAt (Inr v) A b) = Inr (max v w) \<and>
      (v > w \<longrightarrow> snd (PendingNonceAt (Inr v) A b) = b\<lparr>addressNonce := (addressNonce b)(A \<mapsto> v)\<rparr>) \<and>
      (\<not> v > w \<longrightarrow> snd (PendingNonceAt (Inr v) A b) = b))"
  by (auto simp: PendingNonceAt_def max_def)

theorem C1_PendingNonceAt_success_witness:
  "PendingNonceAt (Inr 12) 2 (NewHandleNonceBackend [1]) = (Inr 12, NewHandleNonceBackend [1]) \<and>
   fst (PendingNonceAt (Inr 12) 1 (NewHandleNonceBackend [1])) = Inr 12 \<and>
   addressNonce (snd (PendingNonceAt (Inr 12) 1 (NewHandleNonceBackend [1]))) 1 = Some 12 \<and>
   PendingNonceAt (Inr 11) 1 \<lparr>addressNonce = [1 \<mapsto> 12]\<rparr> = (Inr 12, \<lparr>addressNonce = [1 \<mapsto> 12]\<rparr>)"
proof -
  have unwatched: "addressNonce (NewHandleNonceBackend [1]) 2 = None"
    and watched: "addressNonce (NewHandleNonceBackend [1]) 1 = Some 0"
    by (simp_all add: NewHandleNonceBackend_def)
  have stored: "addressNonce \<lparr>addressNonce = [1 \<mapsto> 12]\<rparr> (1::address) = Some (12::uint64)"
    by simp
  have "PendingNonceAt (Inr 12) 2 (NewHandleNonceBackend [1]) = (Inr 12, NewHandleNonceBackend [1])"
    using C1_PendingNonceAt_success [where b = "NewHandleNonceBackend [1]" and A = 2 and v = 12] unwatched by simp
  moreover have "fst (PendingNonceAt (Inr 12) 1 (NewHandleNonceBackend [1])) = Inr 12
      \<and> addressNonce (snd (PendingNonceAt (Inr 12) 1 (NewHandleNonceBackend [1]))) 1 = Some 12"
    using C1_PendingNonceAt_success [where b = "NewHandleNonceBackend [1]" and A = 1 and v = 12 and w = 0] watched by simp
  moreover have "PendingNonceAt (Inr 11) 1 \<lparr>addressNonce = [1 \<mapsto> 12]\<rparr>
      = (Inr 12, \<lparr>addressNonce = [1 \<mapsto> 12]\<rparr>)"
    using C1_PendingNonceAt_success [where b = "\<lparr>addressNonce = [1 \<mapsto> 12]\<rparr>" and A = 1 and v = 11 and w = 12] stored
    by (simp add: prod_eq_iff)
  ultimately show ?thesis by simp
qed

text \<open>
  C2 (as amended). Let \<open>tx\<close> be sent successfully, its signer recovered as the watched
  account \<open>A\<close> with stored watermark \<open>w\<close>, and let \<open>tx.nonce + 1\<close> fit in a \<open>uint64\<close>
  (\<open>tx.nonce \<noteq> 2^64 - 1\<close>). Then the watermark of \<open>A\<close> becomes \<open>max w (tx.nonce + 1)\<close>;
  an immediately following \<open>PendingNonceAt(A)\<close> returns at least \<open>tx.nonce + 1\<close> whatever
  the inner backend reports; and after any further calls, a successful \<open>SendTransaction\<close>
  from \<open>A\<close> with a smaller nonce leaves the decorator's state, hence the watermark and the
  value \<open>PendingNonceAt\<close> returns, unchanged.
\<close>

theorem C2_SendTransaction_watermark:
  assumes tx: "Sender tx = Inr A" and w: "addressNonce b A = Some w"
    and nomax: "Nonce tx \<noteq> - 1"
  shows "addressNonce (snd (SendTransaction None tx b)) A = Some (max w (Nonce tx + 1)) \<and>
         (\<exists>r. fst (PendingNonceAt (Inr v) A (snd (SendTransaction None tx b))) = Inr r
               \<and> Nonce tx + 1 \<le> r \<and> unat (Nonce tx) + 1 \<le> unat r) \<and>
         (\<forall>(tx2::types_Transaction) cs. Sender tx2 = Inr A \<and> Nonce tx2 < Nonce tx \<longrightarrow>
            SendTransaction None tx2 (run_calls cs (snd (SendTransaction None tx b)))
              = (None, run_calls cs (snd (SendTransaction None tx b))))"
proof -
  let ?b1 = "snd (SendTransaction None tx b)"
  have 1: "addressNonce ?b1 A = Some (max w (Nonce tx + 1))"
    using tx w by (auto simp: SendTransaction_def incrementNonce_def Let_def max_def)
  have res: "fst (PendingNonceAt (Inr v) A ?b1) = Inr (max v (max w (Nonce tx + 1)))"
    using PendingNonceAt_result(1) [OF 1] .
  have ge: "Nonce tx + 1 \<le> max v (max w (Nonce tx + 1))"
    by (rule max.coboundedI2) (rule max.cobounded2)
  then have "unat (Nonce tx + 1) \<le> unat (max v (max w (Nonce tx + 1)))"
    by (simp only: word_le_nat_alt)
  then have ge': "unat (Nonce tx) + 1 \<le> unat (max v (max w (Nonce tx + 1)))"
    using unat_succ_uint64 [OF nomax] by simp
  have 3: "SendTransaction None tx2 (run_calls cs ?b1) = (None, run_calls cs ?b1)"
    if tx2: "Sender tx2 = Inr A" and lt: "Nonce tx2 < Nonce tx"
    for tx2 :: types_Transaction and cs
  proof -
    from run_calls_watched [OF 1, of cs] obtain w' where
      w': "addressNonce (run_calls cs ?b1) A = Some w'" "max w (Nonce tx + 1) \<le> w'" by blast
    have "Nonce tx2 + 1 \<le> Nonce tx" using lt by (rule inc_le)
    also have "Nonce tx \<le> Nonce tx + 1"
      using unat_succ_uint64 [OF nomax] by (simp only: word_le_nat_alt)
    also have "\<dots> \<le> w'" using w'(2) by (rule max.boundedE)
    finally have "\<not> Nonce tx2 + 1 > w'" by simp
    then show ?thesis
      using tx2 w'(1) by (simp add: SendTransaction_def incrementNonce_def Let_def)
  qed
  show ?thesis using 1 res ge ge' 3 by simp
qed

theorem C2_SendTransaction_watermark_witness:
  "addressNonce (snd (SendTransaction None \<lparr>Nonce = 0, Sender = Inr 1\<rparr> (NewHandleNonceBackend [1]))) 1
     = Some 1 \<and>
   addressNonce (snd (SendTransaction None \<lparr>Nonce = 50, Sender = Inr 1\<rparr> (NewHandleNonceBackend [1]))) 1
     = Some 51 \<and>
   fst (PendingNonceAt (Inr 50) 1
       (snd (SendTransaction None \<lparr>Nonce = 50, Sender = Inr 1\<rparr> (NewHandleNonceBackend [1]))))
     = Inr 51 \<and>
   SendTransaction None \<lparr>Nonce = 40, Sender = Inr 1\<rparr>
       (snd (SendTransaction None \<lparr>Nonce = 50, Sender = Inr 1\<rparr> (NewHandleNonceBackend [1])))
     = (None, snd (SendTransaction None \<lparr>Nonce = 50, Sender = Inr 1\<rparr> (NewHandleNonceBackend [1])))"
proof -
  let ?b1 = "snd (SendTransaction None \<lparr>Nonce = 50, Sender = Inr 1\<rparr> (NewHandleNonceBackend [1]))"
  have h0: "Sender \<lparr>Nonce = 0, Sender = Inr 1\<rparr> = Inr 1"
    and n0: "Nonce \<lparr>Nonce = 0, Sender = Inr 1\<rparr> \<noteq> - 1" by simp_all
  have h1: "Sender \<lparr>Nonce = 50, Sender = Inr 1\<rparr> = Inr 1" by simp
  have h2: "addressNonce (NewHandleNonceBackend [1]) 1 = Some 0"
    by (simp add: NewHandleNonceBackend_def)
  have h3: "Nonce \<lparr>Nonce = 50, Sender = Inr 1\<rparr> \<noteq> - 1" by simp
  have h4: "Sender \<lparr>Nonce = 40, Sender = Inr 1\<rparr> = Inr 1
      \<and> Nonce \<lparr>Nonce = 40, Sender = Inr 1\<rparr> < Nonce \<lparr>Nonce = 50, Sender = Inr 1\<rparr>" by simp
  have a: "addressNonce (snd (SendTransaction None \<lparr>Nonce = 0, Sender = Inr 1\<rparr>
      (NewHandleNonceBackend [1]))) 1 = Some 1"
    using C2_SendTransaction_watermark [OF h0 h2 n0] by simp
  note t = C2_SendTransaction_watermark [OF h1 h2 h3, of 50]
  have b: "addressNonce ?b1 1 = Some 51" using t by simp
  have c: "fst (PendingNonceAt (Inr 50) 1 ?b1) = Inr 51"
    using PendingNonceAt_result(1) [OF b, of 50] by simp
  have d: "SendTransaction None \<lparr>Nonce = 40, Sender = Inr 1\<rparr> (run_calls [] ?b1) = (None, run_calls [] ?b1)"
    using t h4 by blast
  show ?thesis using a b c d by simp
qed

text \<open>
  The claim as stated, for every transaction, fails at the largest nonce: \<open>tx.Nonce() + 1\<close>
  wraps to 0, the watermark stays 0, and a later transaction with the smaller nonce 5
  raises it to 6.
\<close>

theorem C2_counterexample:
  "(5::uint64) < - 1 \<and>
   addressNonce (snd (SendTransaction None \<lparr>Nonce = - 1, Sender = Inr 1\<rparr> (NewHandleNonceBackend [1]))) 1
     = Some 0 \<and>
   addressNonce (snd (SendTransaction None \<lparr>Nonce = 5, Sender = Inr 1\<rparr>
     (snd (SendTransaction None \<lparr>Nonce = - 1, Sender = Inr 1\<rparr> (NewHandleNonceBackend [1]))))) 1
     = Some 6"
  by (simp add: SendTransaction_def incrementNonce_def NewHandleNonceBackend_def)

text \<open>
  C3. The watermark of a watched account never decreases over any sequence of calls of the
  decorator (\<open>PendingNonceAt\<close>, \<open>SendTransaction\<close>, the passthrough methods, with any inner
  answers); and for successful \<open>PendingNonceAt(A)\<close> calls whose inner values are
  non-decreasing, the returned values are non-decreasing and each is at least the inner
  value of its call.
\<close>

theorem C3_watermark_monotone:
  assumes "addressNonce b A = Some w" and "sorted vs"
  shows "(\<exists>w'. addressNonce (run_calls cs b) A = Some w' \<and> w \<le> w') \<and>
         (\<exists>rs. PendingNonceAt_calls A (map Inr vs) b = map Inr rs \<and> length rs = length vs
               \<and> sorted rs \<and> (\<forall>i < length vs. vs ! i \<le> rs ! i))"
proof
  show "\<exists>w'. addressNonce (run_calls cs b) A = Some w' \<and> w \<le> w'"
    using assms(1) by (rule run_calls_watched)
next
  from PendingNonceAt_calls_sorted [OF assms(1), of vs]
  show "\<exists>rs. PendingNonceAt_calls A (map Inr vs) b = map Inr rs \<and> length rs = length vs
               \<and> sorted rs \<and> (\<forall>i < length vs. vs ! i \<le> rs ! i)"
    by blast
qed

theorem C3_watermark_monotone_witness:
  "(\<exists>w'. addressNonce (run_calls
        [CallPendingNonceAt 1 (Inr 12), CallSendTransaction \<lparr>Nonce = 50, Sender = Inr 1\<rparr> None,
         CallPassthrough Fwd_BalanceAt, CallSendTransaction \<lparr>Nonce = 40, Sender = Inr 1\<rparr> None]
        (NewHandleNonceBackend [1])) 1 = Some w' \<and> 0 \<le> w') \<and>
   (\<exists>rs. PendingNonceAt_calls 1 (map Inr [12, 12, 13]) (NewHandleNonceBackend [1]) = map Inr rs
         \<and> length rs = length [12, 12, 13 :: uint64]
         \<and> sorted rs \<and> (\<forall>i < length [12, 12, 13 :: uint64]. [12, 12, 13] ! i \<le> rs ! i))"
proof -
  have h1: "addressNonce (NewHandleNonceBackend [1]) 1 = Some 0"
    by (simp add: NewHandleNonceBackend_def)
  have h2: "sorted [12, 12, 13 :: uint64]" by simp
  show ?thesis by (rule C3_watermark_monotone [OF h1 h2])
qed

text \<open>
  C4. When the inner call fails, \<open>PendingNonceAt\<close> and \<open>SendTransaction\<close> return the inner
  error as it is and the decorator's state, the whole watermark table, is what it was;
  this for every account, watched or not.
\<close>

theorem C4_inner_failure_atomic:
  "PendingNonceAt (Inl err) account b = (Inl err, b) \<and>
   SendTransaction (Some err) tx b = (Some err, b)"
  by (simp add: PendingNonceAt_def SendTransaction_def)

section \<open>Facts about the loop of BlockSource\<close>



lemma delivered_append: "delivered (xs @ ys) = delivered xs @ delivered ys"
  by (induction xs rule: delivered.induct) simp_all

lemma need_positive:
  "\<not> needToGetMostRecentBlockNumber c r k \<Longrightarrow> 0 < k \<Longrightarrow>
   \<exists>h. r = Some h \<and> k \<le> h \<and> (\<forall>cur. c = Some cur \<longrightarrow> cur + k \<le> h)"
  by (auto simp: needToGetMostRecentBlockNumber_def Sign_def Cmp_def split: option.splits if_splits)

lemma startFromRecent_simps:
  "recentBlkNumber (startFromRecent k s) = recentBlkNumber s"
  "delayBeforeIteration (startFromRecent k s) = delayBeforeIteration s"
  "currBlkNumber s = Some c \<Longrightarrow> startFromRecent k s = s"
  "recentBlkNumber s = None \<Longrightarrow> startFromRecent k s = s"
  "currBlkNumber s = None \<Longrightarrow> recentBlkNumber s = Some r \<Longrightarrow>
     currBlkNumber (startFromRecent k s) = Some (r - k)"
  by (simp_all add: startFromRecent_def split: option.splits)

lemma fetch_Inl:
  "BlockByNumber_result a (currBlkNumber (startFromRecent k s)) = Inl err \<Longrightarrow>
   iteration_fetch k a s =
     (CalledBlockByNumber (currBlkNumber (startFromRecent k s)) #
        (if err \<noteq> ErrNotFound then [LogPrintf ''BlockByNumber: %v'' [VError err]] else []),
      Continue, (startFromRecent k s)\<lparr>delayBeforeIteration := True\<rparr>)"
  by (simp add: iteration_fetch_def Let_def)

lemma fetch_Inr:
  "BlockByNumber_result a (currBlkNumber (startFromRecent k s)) = Inr b \<Longrightarrow>
   iteration_fetch k a s =
     (CalledBlockByNumber (currBlkNumber (startFromRecent k s)) # (if consumed a then [Delivered b] else []),
      (if consumed a then Continue else Return),
      (startFromRecent k s)\<lparr>currBlkNumber := Some (Number b + 1)\<rparr>)"
  by (simp add: iteration_fetch_def Let_def)

lemma iteration_A:
  "delayBeforeIteration s \<Longrightarrow> ctxDone a \<Longrightarrow> iteration k a s = ([], Return, s)"
  by (simp add: iteration_def)

lemma iteration_B:
  "\<not> (delayBeforeIteration s \<and> ctxDone a) \<Longrightarrow>
   needToGetMostRecentBlockNumber (currBlkNumber s) (recentBlkNumber s) k \<Longrightarrow>
   BlockNumber_rpc a = Inl err \<Longrightarrow>
   iteration k a s =
     ((if delayBeforeIteration s then [Slept] else []) @
        [CalledBlockNumber, LogPrintf ''BlockNumber: %v'' [VError (Errorf ''eth_blockNumber: %v'' [VError err])]],
      Continue, s\<lparr>recentBlkNumber := None, delayBeforeIteration := True\<rparr>)"
  by (simp add: iteration_def BlockNumber_def Let_def)

lemma iteration_C:
  "\<not> (delayBeforeIteration s \<and> ctxDone a) \<Longrightarrow>
   needToGetMostRecentBlockNumber (currBlkNumber s) (recentBlkNumber s) k \<Longrightarrow>
   BlockNumber_rpc a = Inr h \<Longrightarrow>
   needToGetMostRecentBlockNumber (currBlkNumber s) (Some h) k \<Longrightarrow>
   iteration k a s =
     ((if delayBeforeIteration s then [Slept] else []) @ [CalledBlockNumber],
      Continue, s\<lparr>recentBlkNumber := Some h, delayBeforeIteration := True\<rparr>)"
  by (simp add: iteration_def BlockNumber_def Let_def)

lemma iteration_D:
  "\<not> (delayBeforeIteration s \<and> ctxDone a) \<Longrightarrow>
   needToGetMostRecentBlockNumber (currBlkNumber s) (recentBlkNumber s) k \<Longrightarrow>
   BlockNumber_rpc a = Inr h \<Longrightarrow>
   \<not> needToGetMostRecentBlockNumber (currBlkNumber s) (Some h) k \<Longrightarrow>
   iteration k a s =
     (case iteration_fetch k a (s\<lparr>delayBeforeIteration := False, recentBlkNumber := Some h\<rparr>) of
        (ev, st, s') \<Rightarrow> ((if delayBeforeIteration s then [Slept] else []) @ CalledBlockNumber # ev, st, s'))"
  by (auto simp: iteration_def BlockNumber_def Let_def)

lemma iteration_E:
  "\<not> (delayBeforeIteration s \<and> ctxDone a) \<Longrightarrow>
   \<not> needToGetMostRecentBlockNumber (currBlkNumber s) (recentBlkNumber s) k \<Longrightarrow>
   iteration k a s =
     (case iteration_fetch k a (s\<lparr>delayBeforeIteration := False\<rparr>) of
        (ev, st, s') \<Rightarrow> ((if delayBeforeIteration s then [Slept] else []) @ ev, st, s'))"
  by (auto simp: iteration_def Let_def)


lemma iteration_cases [case_names cancelled head_failed head_short fetch_failed fetched]:
  assumes cancelled: "delayBeforeIteration s \<Longrightarrow> ctxDone a \<Longrightarrow> P ([], Return, s)"
    and head_failed: "\<And>pre err ev s'.
      needToGetMostRecentBlockNumber (currBlkNumber s) (recentBlkNumber s) k \<Longrightarrow>
      BlockNumber_rpc a = Inl err \<Longrightarrow> quiet pre \<Longrightarrow>
      ev = pre @ [LogPrintf ''BlockNumber: %v'' [VError (Errorf ''eth_blockNumber: %v'' [VError err])]] \<Longrightarrow>
      s' = s\<lparr>recentBlkNumber := None, delayBeforeIteration := True\<rparr> \<Longrightarrow>
      P (ev, Continue, s')"
    and head_short: "\<And>pre h s'.
      needToGetMostRecentBlockNumber (currBlkNumber s) (recentBlkNumber s) k \<Longrightarrow>
      BlockNumber_rpc a = Inr h \<Longrightarrow>
      needToGetMostRecentBlockNumber (currBlkNumber s) (Some h) k \<Longrightarrow> quiet pre \<Longrightarrow>
      s' = s\<lparr>recentBlkNumber := Some h, delayBeforeIteration := True\<rparr> \<Longrightarrow>
      P (pre, Continue, s')"
    and fetch_failed: "\<And>pre s1 err ev s'.
      quiet pre \<Longrightarrow> currBlkNumber s1 = currBlkNumber s \<Longrightarrow>
      \<not> needToGetMostRecentBlockNumber (currBlkNumber s) (recentBlkNumber s1) k \<Longrightarrow>
      CalledBlockNumber \<in> set pre \<or> recentBlkNumber s1 = recentBlkNumber s \<Longrightarrow>
      (CalledBlockNumber \<in> set pre \<Longrightarrow>
         needToGetMostRecentBlockNumber (currBlkNumber s) (recentBlkNumber s) k \<and>
         (\<exists>h. BlockNumber_rpc a = Inr h)) \<Longrightarrow>
      BlockByNumber_result a (currBlkNumber (startFromRecent k s1)) = Inl err \<Longrightarrow>
      ev = pre @ CalledBlockByNumber (currBlkNumber (startFromRecent k s1)) #
           (if err \<noteq> ErrNotFound then [LogPrintf ''BlockByNumber: %v'' [VError err]] else []) \<Longrightarrow>
      s' = (startFromRecent k s1)\<lparr>delayBeforeIteration := True\<rparr> \<Longrightarrow>
      P (ev, Continue, s')"
    and fetched: "\<And>pre s1 b ev st s'.
      quiet pre \<Longrightarrow> currBlkNumber s1 = currBlkNumber s \<Longrightarrow>
      \<not> needToGetMostRecentBlockNumber (currBlkNumber s) (recentBlkNumber s1) k \<Longrightarrow>
      CalledBlockNumber \<in> set pre \<or> recentBlkNumber s1 = recentBlkNumber s \<Longrightarrow>
      (CalledBlockNumber \<in> set pre \<Longrightarrow>
         needToGetMostRecentBlockNumber (currBlkNumber s) (recentBlkNumber s) k \<and>
         (\<exists>h. BlockNumber_rpc a = Inr h)) \<Longrightarrow>
      delayBeforeIteration s1 = False \<Longrightarrow>
      BlockByNumber_result a (currBlkNumber (startFromRecent k s1)) = Inr b \<Longrightarrow>
      ev = pre @ CalledBlockByNumber (currBlkNumber (startFromRecent k s1)) #
           (if consumed a then [Delivered b] else []) \<Longrightarrow>
      st = (if consumed a then Continue else Return) \<Longrightarrow>
      s' = (startFromRecent k s1)\<lparr>currBlkNumber := Some (Number b + 1)\<rparr> \<Longrightarrow>
      P (ev, st, s')"
  shows "P (iteration k a s)"
proof (cases "delayBeforeIteration s \<and> ctxDone a")
  case True
  then have "iteration k a s = ([], Return, s)" by (simp add: iteration_A)
  then show ?thesis using cancelled True by simp
next
  case run: False
  let ?slept = "if delayBeforeIteration s then [Slept] else []"
  show ?thesis
  proof (cases "needToGetMostRecentBlockNumber (currBlkNumber s) (recentBlkNumber s) k")
    case need: True
    have q: "quiet (?slept @ [CalledBlockNumber])" by (auto simp: quiet_def)
    show ?thesis
    proof (cases "BlockNumber_rpc a")
      case (Inl err)
      from head_failed [OF need Inl q refl refl] show ?thesis
        unfolding iteration_B [OF run need Inl] by simp
    next
      case (Inr h)
      show ?thesis
      proof (cases "needToGetMostRecentBlockNumber (currBlkNumber s) (Some h) k")
        case True
        from head_short [OF need Inr True q refl] show ?thesis
          unfolding iteration_C [OF run need Inr True] by simp
      next
        case enough: False
        let ?s1 = "s\<lparr>delayBeforeIteration := False, recentBlkNumber := Some h\<rparr>"
        have c: "currBlkNumber ?s1 = currBlkNumber s" by simp
        have n: "\<not> needToGetMostRecentBlockNumber (currBlkNumber s) (recentBlkNumber ?s1) k"
          using enough by simp
        have m: "CalledBlockNumber \<in> set (?slept @ [CalledBlockNumber])
                 \<or> recentBlkNumber ?s1 = recentBlkNumber s" by simp
        have d: "delayBeforeIteration ?s1 = False" by simp
        have m2: "needToGetMostRecentBlockNumber (currBlkNumber s) (recentBlkNumber s) k \<and>
            (\<exists>h. BlockNumber_rpc a = Inr h)"
          using need Inr by simp
        show ?thesis
        proof (cases "BlockByNumber_result a (currBlkNumber (startFromRecent k ?s1))")
          case (Inl err)
          from fetch_failed [OF q c n m m2 Inl refl refl] show ?thesis
            unfolding iteration_D [OF run need Inr enough] fetch_Inl [OF Inl] by simp
        next
          case (Inr b)
          from fetched [OF q c n m m2 d Inr refl refl refl] show ?thesis
            unfolding iteration_D [OF run need \<open>BlockNumber_rpc a = Inr h\<close> enough] fetch_Inr [OF Inr]
            by simp
        qed
      qed
    qed
  next
    case noneed: False
    let ?s1 = "s\<lparr>delayBeforeIteration := False\<rparr>"
    have q: "quiet ?slept" by (auto simp: quiet_def)
    have c: "currBlkNumber ?s1 = currBlkNumber s" by simp
    have n: "\<not> needToGetMostRecentBlockNumber (currBlkNumber s) (recentBlkNumber ?s1) k"
      using noneed by simp
    have m: "CalledBlockNumber \<in> set ?slept \<or> recentBlkNumber ?s1 = recentBlkNumber s" by simp
    have m': "CalledBlockNumber \<in> set ?slept \<Longrightarrow>
        needToGetMostRecentBlockNumber (currBlkNumber s) (recentBlkNumber s) k \<and>
        (\<exists>h. BlockNumber_rpc a = Inr h)"
      by (simp split: if_splits)
    have d: "delayBeforeIteration ?s1 = False" by simp
    show ?thesis
    proof (cases "BlockByNumber_result a (currBlkNumber (startFromRecent k ?s1))")
      case (Inl err)
      from fetch_failed [OF q c n m m' Inl refl refl] show ?thesis
        unfolding iteration_E [OF run noneed] fetch_Inl [OF Inl] by simp
    next
      case (Inr b)
      from fetched [OF q c n m m' d Inr refl refl refl] show ?thesis
        unfolding iteration_E [OF run noneed] fetch_Inr [OF Inr] by simp
    qed
  qed
qed


lemma quiet_delivered: "quiet pre \<Longrightarrow> delivered pre = []"
proof (induction pre rule: delivered.induct)
  case 1 then show ?case by simp
next
  case (2 b ev) then show ?case by (simp add: quiet_def)
qed (simp_all add: quiet_def)

lemma quiet_no_request: "quiet pre \<Longrightarrow> CalledBlockByNumber n \<notin> set pre"
  by (auto simp: quiet_def)

lemma quiet_no_log: "quiet pre \<Longrightarrow> LogPrintf f args \<notin> set pre"
  by (auto simp: quiet_def)

lemma need_nonpos: "k \<le> 0 \<Longrightarrow> \<not> needToGetMostRecentBlockNumber c r k"
  by (simp add: needToGetMostRecentBlockNumber_def Sign_def)

lemma iteration_no_head_query:
  assumes "k \<le> 0"
  shows "CalledBlockNumber \<notin> set (fst (iteration k a s))"
proof (rule iteration_cases [where P = "\<lambda>r. CalledBlockNumber \<notin> set (fst r)"], goal_cases)
  case 1
  then show ?case by simp
next
  case (2 pre err ev s')
  then show ?case using need_nonpos [OF assms] by simp
next
  case (3 pre h s')
  then show ?case using need_nonpos [OF assms] by simp
next
  case (4 pre s1 err ev s')
  have "CalledBlockNumber \<notin> set pre" using 4(5) need_nonpos [OF assms] by blast
  then show ?case using 4(7) by simp
next
  case (5 pre s1 b ev st s')
  have "CalledBlockNumber \<notin> set pre" using 5(5) need_nonpos [OF assms] by blast
  then show ?case using 5(8) by simp
qed

lemma returns_requestedD:
  "returns_requested a \<Longrightarrow> BlockByNumber_result a (Some h) = Inr b \<Longrightarrow> Number b = h"
  by (simp add: returns_requested_def)

lemma fetched_facts:
  assumes honest: "returns_requested a"
    and c: "currBlkNumber s1 = currBlkNumber s"
    and n: "\<not> needToGetMostRecentBlockNumber (currBlkNumber s) (recentBlkNumber s1) k"
    and r: "BlockByNumber_result a (currBlkNumber (startFromRecent k s1)) = Inr b"
  shows "(\<forall>c. currBlkNumber s = Some c \<longrightarrow> Number b = c) \<and>
         (0 < k \<longrightarrow> (\<exists>h. recentBlkNumber s1 = Some h \<and> Number b + k \<le> h))"
proof (intro conjI allI impI)
  fix cur assume cur: "currBlkNumber s = Some cur"
  then have "startFromRecent k s1 = s1" using c by (simp add: startFromRecent_simps)
  then have "BlockByNumber_result a (Some cur) = Inr b" using r c cur by simp
  then show "Number b = cur" using honest by (rule returns_requestedD [rotated])
next
  assume pos: "0 < k"
  from need_positive [OF n pos] obtain h where
    h: "recentBlkNumber s1 = Some h" "k \<le> h" "\<forall>cur. currBlkNumber s = Some cur \<longrightarrow> cur + k \<le> h"
    by blast
  show "\<exists>h. recentBlkNumber s1 = Some h \<and> Number b + k \<le> h"
  proof (cases "currBlkNumber s")
    case None
    then have "currBlkNumber (startFromRecent k s1) = Some (h - k)"
      using c h(1) by (simp add: startFromRecent_simps)
    then have "Number b = h - k" using r honest by (simp add: returns_requestedD)
    then show ?thesis using h(1) by simp
  next
    case (Some cur)
    then have "startFromRecent k s1 = s1" using c by (simp add: startFromRecent_simps)
    then have "BlockByNumber_result a (Some cur) = Inr b" using r c Some by simp
    then have "Number b = cur" using honest by (rule returns_requestedD [rotated])
    then show ?thesis using h(1) h(3) Some by simp
  qed
qed

lemma startFromRecent_curr:
  "currBlkNumber s = Some c \<Longrightarrow> currBlkNumber (startFromRecent k s) = Some c"
  by (simp add: startFromRecent_simps)

lemma iteration_delivers:
  assumes honest: "returns_requested a"
  shows "(\<forall>c. currBlkNumber s = Some c \<longrightarrow>
            currBlkNumber (snd (snd (iteration k a s))) = Some c
          \<or> currBlkNumber (snd (snd (iteration k a s))) = Some (c + 1)) \<and>
         (delivered (fst (iteration k a s)) = [] \<or>
          (\<exists>b. delivered (fst (iteration k a s)) = [b]
             \<and> currBlkNumber (snd (snd (iteration k a s))) = Some (Number b + 1)
             \<and> (\<forall>c. currBlkNumber s = Some c \<longrightarrow> Number b = c)
             \<and> (0 < k \<longrightarrow> (\<exists>h. recentBlkNumber (snd (snd (iteration k a s))) = Some h
                                  \<and> Number b + k \<le> h))))"
proof (rule iteration_cases [where P = "\<lambda>r.
    (\<forall>c. currBlkNumber s = Some c \<longrightarrow>
            currBlkNumber (snd (snd r)) = Some c \<or> currBlkNumber (snd (snd r)) = Some (c + 1)) \<and>
         (delivered (fst r) = [] \<or>
          (\<exists>b. delivered (fst r) = [b]
             \<and> currBlkNumber (snd (snd r)) = Some (Number b + 1)
             \<and> (\<forall>c. currBlkNumber s = Some c \<longrightarrow> Number b = c)
             \<and> (0 < k \<longrightarrow> (\<exists>h. recentBlkNumber (snd (snd r)) = Some h \<and> Number b + k \<le> h))))"],
    goal_cases)
  case 1
  then show ?case by simp
next
  case (2 pre err ev s')
  then show ?case by (simp add: delivered_append quiet_delivered)
next
  case (3 pre h s')
  then show ?case by (simp add: quiet_delivered)
next
  case (4 pre s1 err ev s')
  have "\<forall>c. currBlkNumber s = Some c \<longrightarrow> currBlkNumber (startFromRecent k s1) = Some c"
    using 4(2) by (simp add: startFromRecent_curr)
  then show ?case using 4(1) 4(7) 4(8) by (simp add: delivered_append quiet_delivered)
next
  case (5 pre s1 b ev st s')
  note f = fetched_facts [OF honest 5(2) 5(3) 5(7)]
  have rec: "recentBlkNumber s' = recentBlkNumber s1"
    using 5(10) by (simp add: startFromRecent_simps)
  have cur: "currBlkNumber s' = Some (Number b + 1)" using 5(10) by simp
  have del: "delivered ev = (if consumed a then [b] else [])"
    using 5(1) 5(8) by (simp add: delivered_append quiet_delivered)
  show ?case using f rec cur del by simp
qed

lemma loop_Cons:
  "loop k (a # as) s =
     (if fst (snd (iteration k a s)) = Return then iteration k a s
      else (fst (iteration k a s) @ fst (loop k as (snd (snd (iteration k a s)))),
            snd (loop k as (snd (snd (iteration k a s))))))"
  by (cases "iteration k a s"; cases "loop k as (snd (snd (iteration k a s)))";
      cases "fst (snd (iteration k a s))") auto

lemma loop_Cons_delivered:
  "delivered (fst (loop k (a # as) s)) =
     delivered (fst (iteration k a s)) @
       (if fst (snd (iteration k a s)) = Return then []
        else delivered (fst (loop k as (snd (snd (iteration k a s))))))"
  by (simp add: loop_Cons delivered_append del: loop.simps)

lemma loop_delivered_sorted:
  assumes "\<forall>a \<in> set as. returns_requested a"
  shows "sorted_wrt (<) (map Number (delivered (fst (loop k as s)))) \<and>
         (\<forall>c. currBlkNumber s = Some c \<longrightarrow> (\<forall>b \<in> set (delivered (fst (loop k as s))). c \<le> Number b))"
  using assms
proof (induction as arbitrary: s)
  case Nil
  then show ?case by simp
next
  case (Cons a as)
  let ?ev = "fst (iteration k a s)" and ?s' = "snd (snd (iteration k a s))"
  have honest: "returns_requested a" and rest: "\<forall>a \<in> set as. returns_requested a"
    using Cons.prems by simp_all
  note it = iteration_delivers [OF honest, of s k]
  note IH = Cons.IH [OF rest, of ?s']
  have step: "\<forall>c. currBlkNumber s = Some c \<longrightarrow> currBlkNumber ?s' = Some c \<or> currBlkNumber ?s' = Some (c + 1)"
    using it by blast
  have later: "\<forall>c. currBlkNumber s = Some c \<longrightarrow>
      (\<forall>b \<in> set (delivered (fst (loop k as ?s'))). c \<le> Number b)"
  proof (intro allI impI ballI)
    fix c b assume c: "currBlkNumber s = Some c" and b: "b \<in> set (delivered (fst (loop k as ?s')))"
    from step c have "currBlkNumber ?s' = Some c \<or> currBlkNumber ?s' = Some (c + 1)" by blast
    then show "c \<le> Number b" using IH b by fastforce
  qed
  from it have "delivered ?ev = [] \<or>
          (\<exists>b. delivered ?ev = [b] \<and> currBlkNumber ?s' = Some (Number b + 1)
             \<and> (\<forall>c. currBlkNumber s = Some c \<longrightarrow> Number b = c))" by blast
  then show ?case
  proof
    assume none: "delivered ?ev = []"
    show ?thesis using none IH later by (simp add: loop_Cons_delivered del: loop.simps)
  next
    assume "\<exists>b. delivered ?ev = [b] \<and> currBlkNumber ?s' = Some (Number b + 1)
             \<and> (\<forall>c. currBlkNumber s = Some c \<longrightarrow> Number b = c)"
    then obtain b where b: "delivered ?ev = [b]" "currBlkNumber ?s' = Some (Number b + 1)"
      "\<forall>c. currBlkNumber s = Some c \<longrightarrow> Number b = c" by blast
    have after: "\<forall>b' \<in> set (delivered (fst (loop k as ?s'))). Number b < Number b'"
      using IH b(2) by fastforce
    show ?thesis using b(1) b(3) IH later after
      by (auto simp: loop_Cons_delivered simp del: loop.simps)
  qed
qed

lemma iteration_head_failure:
  assumes q: "CalledBlockNumber \<in> set (fst (iteration k a s))"
    and e: "BlockNumber_rpc a = Inl err"
  shows "fst (snd (iteration k a s)) = Continue \<and>
         delivered (fst (iteration k a s)) = [] \<and>
         delayBeforeIteration (snd (snd (iteration k a s))) \<and>
         currBlkNumber (snd (snd (iteration k a s))) = currBlkNumber s \<and>
         LogPrintf ''BlockNumber: %v'' [VError (Errorf ''eth_blockNumber: %v'' [VError err])]
           \<in> set (fst (iteration k a s))"
proof -
  have "CalledBlockNumber \<in> set (fst (iteration k a s)) \<longrightarrow> ?thesis"
  proof (rule iteration_cases [where P = "\<lambda>r. CalledBlockNumber \<in> set (fst r) \<longrightarrow>
         fst (snd r) = Continue \<and> delivered (fst r) = [] \<and>
         delayBeforeIteration (snd (snd r)) \<and> currBlkNumber (snd (snd r)) = currBlkNumber s \<and>
         LogPrintf ''BlockNumber: %v'' [VError (Errorf ''eth_blockNumber: %v'' [VError err])]
           \<in> set (fst r)"], goal_cases)
    case 1
    then show ?case by simp
  next
    case (2 pre err' ev s')
    then show ?case using e by (simp add: delivered_append quiet_delivered)
  next
    case (3 pre h s')
    then show ?case using e by simp
  next
    case (4 pre s1 err' ev s')
    have "CalledBlockNumber \<notin> set pre" using 4(5) e by auto
    then show ?case using 4(7) by simp
  next
    case (5 pre s1 b ev st s')
    have "CalledBlockNumber \<notin> set pre" using 5(5) e by auto
    then show ?case using 5(8) by simp
  qed
  then show ?thesis using q by blast
qed

lemma iteration_fetch_failure:
  assumes q: "CalledBlockByNumber n \<in> set (fst (iteration k a s))"
    and e: "BlockByNumber_result a n = Inl err"
  shows "fst (snd (iteration k a s)) = Continue \<and>
         delivered (fst (iteration k a s)) = [] \<and>
         delayBeforeIteration (snd (snd (iteration k a s))) \<and>
         (currBlkNumber s \<noteq> None \<longrightarrow> currBlkNumber (snd (snd (iteration k a s))) = currBlkNumber s) \<and>
         (CalledBlockNumber \<notin> set (fst (iteration k a s)) \<longrightarrow>
            recentBlkNumber (snd (snd (iteration k a s))) = recentBlkNumber s) \<and>
         (err = ErrNotFound \<longrightarrow> (\<forall>f args. LogPrintf f args \<notin> set (fst (iteration k a s)))) \<and>
         (err \<noteq> ErrNotFound \<longrightarrow>
            LogPrintf ''BlockByNumber: %v'' [VError err] \<in> set (fst (iteration k a s)))"
proof -
  have "CalledBlockByNumber n \<in> set (fst (iteration k a s)) \<longrightarrow> ?thesis"
  proof (rule iteration_cases [where P = "\<lambda>r. CalledBlockByNumber n \<in> set (fst r) \<longrightarrow>
         fst (snd r) = Continue \<and> delivered (fst r) = [] \<and>
         delayBeforeIteration (snd (snd r)) \<and>
         (currBlkNumber s \<noteq> None \<longrightarrow> currBlkNumber (snd (snd r)) = currBlkNumber s) \<and>
         (CalledBlockNumber \<notin> set (fst r) \<longrightarrow> recentBlkNumber (snd (snd r)) = recentBlkNumber s) \<and>
         (err = ErrNotFound \<longrightarrow> (\<forall>f args. LogPrintf f args \<notin> set (fst r))) \<and>
         (err \<noteq> ErrNotFound \<longrightarrow> LogPrintf ''BlockByNumber: %v'' [VError err] \<in> set (fst r))"],
      goal_cases)
    case 1
    then show ?case by simp
  next
    case (2 pre err' ev s')
    then show ?case by (simp add: quiet_no_request)
  next
    case (3 pre h s')
    then show ?case by (simp add: quiet_no_request)
  next
    case (4 pre s1 err' ev s')
    show ?case
    proof
      assume "CalledBlockByNumber n \<in> set (fst (ev, Continue, s'))"
      then have n: "n = currBlkNumber (startFromRecent k s1)"
        using quiet_no_request [OF 4(1)] 4(7) by (auto split: if_splits)
      then have err: "err' = err" using 4(6) e by simp
      have cur: "currBlkNumber s \<noteq> None \<longrightarrow> currBlkNumber s' = currBlkNumber s"
        using 4(2) 4(8) by (auto simp: startFromRecent_simps)
      have rec: "CalledBlockNumber \<notin> set pre \<longrightarrow> recentBlkNumber s' = recentBlkNumber s"
        using 4(4) 4(8) by (auto simp: startFromRecent_simps)
      have del: "delivered ev = []" "delayBeforeIteration s'"
        using quiet_delivered [OF 4(1)] 4(7) 4(8) by (simp_all add: delivered_append)
      have logs: "set ev = set pre \<union> {CalledBlockByNumber n} \<union>
          (if err \<noteq> ErrNotFound then {LogPrintf ''BlockByNumber: %v'' [VError err]} else {})"
        using 4(7) n err by auto
      show "fst (snd (ev, Continue, s')) = Continue \<and> delivered (fst (ev, Continue, s')) = [] \<and>
         delayBeforeIteration (snd (snd (ev, Continue, s'))) \<and>
         (currBlkNumber s \<noteq> None \<longrightarrow> currBlkNumber (snd (snd (ev, Continue, s'))) = currBlkNumber s) \<and>
         (CalledBlockNumber \<notin> set (fst (ev, Continue, s')) \<longrightarrow>
            recentBlkNumber (snd (snd (ev, Continue, s'))) = recentBlkNumber s) \<and>
         (err = ErrNotFound \<longrightarrow> (\<forall>f args. LogPrintf f args \<notin> set (fst (ev, Continue, s')))) \<and>
         (err \<noteq> ErrNotFound \<longrightarrow>
            LogPrintf ''BlockByNumber: %v'' [VError err] \<in> set (fst (ev, Continue, s')))"
        using cur rec del logs quiet_no_log [OF 4(1)] by simp
    qed
  next
    case (5 pre s1 b ev st s')
    have "CalledBlockByNumber n \<notin> set ev"
    proof
      assume "CalledBlockByNumber n \<in> set ev"
      then have "n = currBlkNumber (startFromRecent k s1)"
        using quiet_no_request [OF 5(1)] 5(8) by (auto split: if_splits)
      then show False using 5(7) e by simp
    qed
    then show ?case by simp
  qed
  then show ?thesis using q by blast
qed

lemma loop_Cons_events:
  "set (fst (loop k (a # as) s)) \<subseteq>
     set (fst (iteration k a s)) \<union> set (fst (loop k as (snd (snd (iteration k a s)))))"
  by (auto simp: loop_Cons simp del: loop.simps)

lemma loop_Cons_final:
  "snd (snd (loop k (a # as) s)) =
     (if fst (snd (iteration k a s)) = Return then snd (snd (iteration k a s))
      else snd (snd (loop k as (snd (snd (iteration k a s))))))"
  by (simp add: loop_Cons del: loop.simps)

lemma loop_no_head_query:
  assumes "k \<le> 0"
  shows "CalledBlockNumber \<notin> set (fst (loop k as s))"
proof (induction as arbitrary: s)
  case Nil
  then show ?case by simp
next
  case (Cons a as)
  show ?case
    using loop_Cons_events [of k a as s] iteration_no_head_query [OF assms, of a s]
      Cons.IH [of "snd (snd (iteration k a s))"]
    by blast
qed

lemma iteration_unset:
  assumes k: "k \<le> 0" and c: "currBlkNumber s = None" and r: "recentBlkNumber s = None"
  shows "(\<forall>n. CalledBlockByNumber n \<in> set (fst (iteration k a s)) \<longrightarrow> n = None) \<and>
         recentBlkNumber (snd (snd (iteration k a s))) = None \<and>
         ((\<exists>err. BlockByNumber_result a None = Inl err) \<longrightarrow>
            currBlkNumber (snd (snd (iteration k a s))) = None \<and>
            delivered (fst (iteration k a s)) = []) \<and>
         (\<forall>b. BlockByNumber_result a None = Inr b \<and> \<not> (delayBeforeIteration s \<and> ctxDone a) \<longrightarrow>
            CalledBlockByNumber None \<in> set (fst (iteration k a s)) \<and>
            currBlkNumber (snd (snd (iteration k a s))) = Some (Number b + 1) \<and>
            \<not> delayBeforeIteration (snd (snd (iteration k a s))) \<and>
            delivered (fst (iteration k a s)) = (if consumed a then [b] else []))"
proof (rule iteration_cases [where P = "\<lambda>res.
         (\<forall>n. CalledBlockByNumber n \<in> set (fst res) \<longrightarrow> n = None) \<and>
         recentBlkNumber (snd (snd res)) = None \<and>
         ((\<exists>err. BlockByNumber_result a None = Inl err) \<longrightarrow>
            currBlkNumber (snd (snd res)) = None \<and> delivered (fst res) = []) \<and>
         (\<forall>b. BlockByNumber_result a None = Inr b \<and> \<not> (delayBeforeIteration s \<and> ctxDone a) \<longrightarrow>
            CalledBlockByNumber None \<in> set (fst res) \<and>
            currBlkNumber (snd (snd res)) = Some (Number b + 1) \<and>
            \<not> delayBeforeIteration (snd (snd res)) \<and>
            delivered (fst res) = (if consumed a then [b] else []))"], goal_cases)
  case 1
  then show ?case using c r by simp
next
  case (2 pre err ev s')
  then show ?case using need_nonpos [OF k] by simp
next
  case (3 pre h s')
  then show ?case using need_nonpos [OF k] by simp
next
  case (4 pre s1 err ev s')
  have nohead: "CalledBlockNumber \<notin> set pre" using 4(5) need_nonpos [OF k] by blast
  then have r1: "recentBlkNumber s1 = None" using 4(4) r by simp
  then have same: "startFromRecent k s1 = s1" by (simp add: startFromRecent_simps)
  have c1: "currBlkNumber s1 = None" using 4(2) c by simp
  have res: "BlockByNumber_result a None = Inl err" using 4(6) same c1 by simp
  have ev: "set ev \<subseteq> set pre \<union> {CalledBlockByNumber None} \<union> {LogPrintf ''BlockByNumber: %v'' [VError err]}"
    using 4(7) same c1 by auto
  have del: "delivered ev = []" using 4(7) quiet_delivered [OF 4(1)] by (simp add: delivered_append)
  have s': "currBlkNumber s' = None" "recentBlkNumber s' = None" using 4(8) same c1 r1 by simp_all
  have "\<forall>n. CalledBlockByNumber n \<in> set ev \<longrightarrow> n = None"
    using ev quiet_no_request [OF 4(1)] by auto
  then show ?case using res del s' by simp
next
  case (5 pre s1 b ev st s')
  have nohead: "CalledBlockNumber \<notin> set pre" using 5(5) need_nonpos [OF k] by blast
  then have r1: "recentBlkNumber s1 = None" using 5(4) r by simp
  then have same: "startFromRecent k s1 = s1" by (simp add: startFromRecent_simps)
  have c1: "currBlkNumber s1 = None" using 5(2) c by simp
  have res: "BlockByNumber_result a None = Inr b" using 5(7) same c1 by simp
  have ev: "ev = pre @ CalledBlockByNumber None # (if consumed a then [Delivered b] else [])"
    using 5(8) same c1 by simp
  have del: "delivered ev = (if consumed a then [b] else [])"
    using ev quiet_delivered [OF 5(1)] by (simp add: delivered_append)
  have s': "currBlkNumber s' = Some (Number b + 1)" "recentBlkNumber s' = None"
    "\<not> delayBeforeIteration s'"
    using 5(10) same r1 5(6) by simp_all
  have "\<forall>n. CalledBlockByNumber n \<in> set ev \<longrightarrow> n = None"
    using ev quiet_no_request [OF 5(1)] by (auto split: if_splits)
  moreover have "CalledBlockByNumber None \<in> set ev" using ev by simp
  ultimately show ?case using res del s' by simp
qed

lemma loop_unset:
  assumes k: "k \<le> 0"
  shows "currBlkNumber s = None \<Longrightarrow> recentBlkNumber s = None \<Longrightarrow>
         \<forall>a \<in> set as. \<exists>err. BlockByNumber_result a None = Inl err \<Longrightarrow>
         currBlkNumber (snd (snd (loop k as s))) = None \<and>
         recentBlkNumber (snd (snd (loop k as s))) = None \<and>
         (\<forall>n. CalledBlockByNumber n \<in> set (fst (loop k as s)) \<longrightarrow> n = None)"
proof (induction as arbitrary: s)
  case Nil
  then show ?case by simp
next
  case (Cons a as)
  let ?s' = "snd (snd (iteration k a s))"
  have fails: "\<exists>err. BlockByNumber_result a None = Inl err" using Cons.prems(3) by simp
  note it = iteration_unset [OF k Cons.prems(1) Cons.prems(2), of a]
  have s': "currBlkNumber ?s' = None" "recentBlkNumber ?s' = None" using it fails by blast+
  have rest: "\<forall>a \<in> set as. \<exists>err. BlockByNumber_result a None = Inl err"
    using Cons.prems(3) by simp
  note IH = Cons.IH [OF s' rest]
  have req: "\<forall>n. CalledBlockByNumber n \<in> set (fst (loop k (a # as) s)) \<longrightarrow> n = None"
    using loop_Cons_events [of k a as s] it IH by blast
  show ?case using req s' IH by (simp add: loop_Cons_final del: loop.simps)
qed

lemma iteration_requests_cursor:
  assumes c: "currBlkNumber s = Some c" and d: "\<not> delayBeforeIteration s" and k: "k \<le> 0"
  shows "CalledBlockByNumber (Some c) \<in> set (fst (iteration k a s))"
proof (rule iteration_cases [where P = "\<lambda>res. CalledBlockByNumber (Some c) \<in> set (fst res)"],
    goal_cases)
  case 1
  then show ?case using d by simp
next
  case (2 pre err ev s')
  then show ?case using need_nonpos [OF k] by simp
next
  case (3 pre h s')
  then show ?case using need_nonpos [OF k] by simp
next
  case (4 pre s1 err ev s')
  have "currBlkNumber (startFromRecent k s1) = Some c"
    using 4(2) c by (simp add: startFromRecent_curr)
  then show ?case using 4(7) by simp
next
  case (5 pre s1 b ev st s')
  have "currBlkNumber (startFromRecent k s1) = Some c"
    using 5(2) c by (simp add: startFromRecent_curr)
  then show ?case using 5(8) by simp
qed

lemmas run_defs = runAsync_def iteration_def iteration_fetch_def startFromRecent_def
  needToGetMostRecentBlockNumber_def Sign_def Cmp_def BlockNumber_def Let_def

lemma node_returns_requested: "returns_requested (node head latest)"
  by (simp add: returns_requested_def node_def)

section \<open>Facts about GasPriceEstimator\<close>

lemma estimator_iteration_fields:
  "closeOnce (snd (snd (estimator_iteration t e))) = closeOnce e"
  "closed (snd (snd (estimator_iteration t e))) = closed e"
  by (simp_all add: estimator_iteration_def Let_def split: sum.splits)

lemma estimator_iteration_Return:
  "fst (snd (estimator_iteration t e)) = Return \<Longrightarrow>
   \<not> running (snd (snd (estimator_iteration t e)))"
  by (simp add: estimator_iteration_def Let_def split: sum.splits if_splits)

lemma estimator_loop_Cons:
  "estimator_loop (t # ts) e =
     (if fst (snd (estimator_iteration t e)) = Return then estimator_iteration t e
      else (fst (estimator_iteration t e) @ fst (estimator_loop ts (snd (snd (estimator_iteration t e)))),
            snd (estimator_loop ts (snd (snd (estimator_iteration t e))))))"
  by (cases "estimator_iteration t e"; cases "estimator_loop ts (snd (snd (estimator_iteration t e)))";
      cases "fst (snd (estimator_iteration t e))") auto

lemma estimator_loop_Return:
  "fst (snd (estimator_loop ts e)) = Return \<Longrightarrow>
   \<not> running (snd (snd (estimator_loop ts e))) \<and>
   closed (snd (snd (estimator_loop ts e))) = closed e \<and>
   closeOnce (snd (snd (estimator_loop ts e))) = closeOnce e"
proof (induction ts arbitrary: e)
  case Nil
  then show ?case by simp
next
  case (Cons t ts)
  show ?case
  proof (cases "fst (snd (estimator_iteration t e)) = Return")
    case True
    then show ?thesis
      using estimator_iteration_Return [OF True] estimator_iteration_fields [of t e]
      by (simp add: estimator_loop_Cons del: estimator_loop.simps)
  next
    case False
    then have "fst (snd (estimator_loop ts (snd (snd (estimator_iteration t e))))) = Return"
      using Cons.prems by (simp add: estimator_loop_Cons del: estimator_loop.simps)
    from Cons.IH [OF this] show ?thesis
      using False estimator_iteration_fields [of t e]
      by (simp add: estimator_loop_Cons del: estimator_loop.simps)
  qed
qed

lemma Close_Returned:
  assumes "Close final e = Returned e'"
  shows "closeOnce e' \<and> (shut e \<longrightarrow> shut e')"
proof (cases "closeOnce e")
  case True
  then show ?thesis using assms by (simp add: Close_def)
next
  case False
  obtain ev st e1 where l: "estimator_loop final (e\<lparr>closed := True\<rparr>) = (ev, st, e1)"
    by (cases "estimator_loop final (e\<lparr>closed := True\<rparr>)")
  have nc: "\<not> closed e" using assms False by (auto simp: Close_def split: if_splits)
  have st: "st = Return" and e': "e' = e1\<lparr>closeOnce := True\<rparr>"
    using assms False nc l by (auto simp: Close_def split: status.splits)
  have "fst (snd (estimator_loop final (e\<lparr>closed := True\<rparr>))) = Return" using l st by simp
  from estimator_loop_Return [OF this] have "\<not> running e1" "closed e1" using l by simp_all
  then show ?thesis using e' by (simp add: shut_def)
qed

lemma Close_again: "closeOnce e \<Longrightarrow> Close final e = Returned e"
  by (simp add: Close_def)

lemma background_shut:
  "shut e \<Longrightarrow> shut (if running e then snd (snd (estimator_iteration t e)) else e)"
  using estimator_iteration_fields [of t e]
  by (auto simp: shut_def)

lemma uses_shut:
  "shut e \<Longrightarrow> uses us e = Returned (vs, e') \<Longrightarrow> shut e'"
proof (induction us arbitrary: e vs)
  case Nil
  then show ?case by simp
next
  case (Cons u us)
  show ?case
  proof (cases u)
    case (UseClose final)
    then obtain e1 where c: "Close final e = Returned e1" and r: "uses us e1 = Returned (vs, e')"
      using Cons.prems(2) by (auto split: outcome.splits)
    from Close_Returned [OF c] Cons.prems(1) have "shut e1" by simp
    from Cons.IH [OF this r] show ?thesis .
  next
    case UseSuggestGasPrice
    then obtain vs1 where "uses us e = Returned (vs1, e')"
      using Cons.prems(2) by (auto split: outcome.splits)
    from Cons.IH [OF Cons.prems(1) this] show ?thesis .
  next
    case (Background t)
    then have "uses us (if running e then snd (snd (estimator_iteration t e)) else e) = Returned (vs, e')"
      using Cons.prems(2) by simp
    from Cons.IH [OF background_shut [OF Cons.prems(1)] this] show ?thesis .
  qed
qed

lemma uses_after_close:
  "closeOnce e \<Longrightarrow> shut e \<Longrightarrow> uses us e = Returned (replicate (reads us) (gasPrice e), e)"
proof (induction us)
  case Nil
  then show ?case by simp
next
  case (Cons u us)
  then have nr: "\<not> running e" by (simp add: shut_def)
  show ?case
    using Cons nr by (cases u) (simp_all add: Close_again SuggestGasPrice_def)
qed

lemma new_shut: "shut (newGasPriceEstimator p)"
  by (simp add: shut_def newGasPriceEstimator_def)

section \<open>Claims about GasPriceEstimator\<close>

text \<open>
  C8. Let an estimator, after any history of uses since its construction, be closed by a
  call of \<open>Close\<close> that returns. Then every further call of \<open>Close\<close> returns at once and
  leaves the estimator as it is, and in any sequence of further uses (calls of \<open>Close\<close>,
  calls of \<open>SuggestGasPrice\<close>, attempts of the goroutine to run) every call of
  \<open>SuggestGasPrice\<close> returns the price cached when \<open>Close\<close> returned; nothing blocks and
  nothing panics.
\<close>

theorem C8_Close_idempotent:
  assumes history: "uses history (newGasPriceEstimator initGasPrice) = Returned (vs, e)"
    and closed: "Close final e = Returned e'"
  shows "Close final' e' = Returned e' \<and>
         uses us e' = Returned (replicate (reads us) (gasPrice e'), e')"
proof -
  have "shut e" using uses_shut [OF new_shut history] .
  then have e': "closeOnce e'" "shut e'" using Close_Returned [OF closed] by simp_all
  show ?thesis using Close_again [OF e'(1)] uses_after_close [OF e'] by simp
qed

lemmas est_defs = Close_def estimator_iteration_def newGasPriceEstimator_def SuggestGasPrice_def
  Cmp_def Let_def

theorem C8_Close_idempotent_witness:
  "uses [Background \<lparr>ctxDoneFirst = False, SuggestGasPrice_result = Inr 2\<rparr>, UseSuggestGasPrice]
      (newGasPriceEstimator 1)
     = Returned ([2], \<lparr>gasPrice = 2, closeOnce = False, closed = False, running = True\<rparr>) \<and>
   Close [\<lparr>ctxDoneFirst = False, SuggestGasPrice_result = Inr 3\<rparr>,
          \<lparr>ctxDoneFirst = True, SuggestGasPrice_result = Inr 4\<rparr>]
      \<lparr>gasPrice = 2, closeOnce = False, closed = False, running = True\<rparr>
     = Returned \<lparr>gasPrice = 3, closeOnce = True, closed = True, running = False\<rparr> \<and>
   Close [] \<lparr>gasPrice = 3, closeOnce = True, closed = True, running = False\<rparr>
     = Returned \<lparr>gasPrice = 3, closeOnce = True, closed = True, running = False\<rparr> \<and>
   uses [UseSuggestGasPrice, UseClose [], Background \<lparr>ctxDoneFirst = False, SuggestGasPrice_result = Inr 9\<rparr>,
         UseSuggestGasPrice]
      \<lparr>gasPrice = 3, closeOnce = True, closed = True, running = False\<rparr>
     = Returned ([3, 3], \<lparr>gasPrice = 3, closeOnce = True, closed = True, running = False\<rparr>)"
proof -
  have h1: "uses [Background \<lparr>ctxDoneFirst = False, SuggestGasPrice_result = Inr 2\<rparr>, UseSuggestGasPrice]
      (newGasPriceEstimator 1)
     = Returned ([2], \<lparr>gasPrice = 2, closeOnce = False, closed = False, running = True\<rparr>)"
    by (simp add: est_defs)
  have h2: "Close [\<lparr>ctxDoneFirst = False, SuggestGasPrice_result = Inr 3\<rparr>,
          \<lparr>ctxDoneFirst = True, SuggestGasPrice_result = Inr 4\<rparr>]
      \<lparr>gasPrice = 2, closeOnce = False, closed = False, running = True\<rparr>
     = Returned \<lparr>gasPrice = 3, closeOnce = True, closed = True, running = False\<rparr>"
    by (simp add: est_defs)
  have h3: "Close [] \<lparr>gasPrice = 3, closeOnce = True, closed = True, running = False\<rparr>
     = Returned \<lparr>gasPrice = 3, closeOnce = True, closed = True, running = False\<rparr> \<and>
   uses [UseSuggestGasPrice, UseClose [], Background \<lparr>ctxDoneFirst = False, SuggestGasPrice_result = Inr 9\<rparr>,
         UseSuggestGasPrice]
      \<lparr>gasPrice = 3, closeOnce = True, closed = True, running = False\<rparr>
     = Returned ([3, 3], \<lparr>gasPrice = 3, closeOnce = True, closed = True, running = False\<rparr>)"
    using C8_Close_idempotent [OF h1 h2, of "[]"
        "[UseSuggestGasPrice, UseClose [], Background \<lparr>ctxDoneFirst = False, SuggestGasPrice_result = Inr 9\<rparr>,
          UseSuggestGasPrice]"]
    by (simp del: uses.simps)
  show ?thesis using h1 h2 h3 by blast
qed

text \<open>The depth as the loop reads it, \<open>int64(cfg.Confirmations)\<close>, below \<open>2^63\<close>.\<close>

lemma sint_small_depth:
  fixes c :: "64 word"
  assumes "c < 2 ^ 63"
  shows "sint c = uint c"
proof -
  have lt: "uint c < 2 ^ 63" using assms by (simp add: word_less_def)
  have ge: "- (2 ^ 63) \<le> uint c"
  proof -
    have "- (2 ^ 63) \<le> (0::int)" by simp
    also have "0 \<le> uint c" by simp
    finally show ?thesis .
  qed
  have "signed_take_bit 63 (uint c) = uint c"
    using ge lt by (rule signed_take_bit_int_eq_self)
  then show ?thesis by (simp add: sint_uint)
qed

lemma uint_pos_depth: "(0::64 word) < c \<Longrightarrow> 0 < uint c"
  by (simp add: word_less_def)

section \<open>Claims about BlockSource\<close>

text \<open>
  C6. \<open>needToGetMostRecentBlockNumber\<close> is true exactly when \<open>confirmations > 0\<close> and
  the head height is unknown, or the head height is below \<open>confirmations\<close>, or the current
  height is known and \<open>currentHeight + confirmations\<close> exceeds the head height; with
  \<open>confirmations = 0\<close> it is false.
\<close>

theorem C6_refresh_decision:
  "(needToGetMostRecentBlockNumber currentHeight recentHeadHeight confirmations \<longleftrightarrow>
      confirmations > 0 \<and>
      (recentHeadHeight = None \<or>
       (\<exists>head. recentHeadHeight = Some head \<and> head < confirmations) \<or>
       (\<exists>cur head. currentHeight = Some cur \<and> recentHeadHeight = Some head
                   \<and> cur + confirmations > head))) \<and>
   needToGetMostRecentBlockNumber currentHeight recentHeadHeight 0 = False"
  by (auto simp: needToGetMostRecentBlockNumber_def Sign_def Cmp_def split: option.splits)

text \<open>
  C5 (as amended). Provided that every block the node returns for an explicit height has
  that height: in every run the heights of the delivered blocks are strictly increasing;
  in every iteration that delivers a block \<open>b\<close> the cursor afterwards is \<open>b.Number + 1\<close>,
  \<open>b\<close> is the block at the cursor when the cursor was set, and, when the configured depth
  is positive and below \<open>2^63\<close>, the head height the iteration decided on is at least
  \<open>b.Number\<close> plus the configured depth; and an iteration leaves a set cursor where it is
  or moves it up by one.
\<close>

theorem C5_ordered_delivery:
  assumes run: "\<forall>a \<in> set as. returns_requested a" and one: "returns_requested a"
  shows "sorted_wrt (<) (map Number (delivered (fst (runAsync cfg as)))) \<and>
         (\<forall>b \<in> set (delivered (fst (iteration (sint (Confirmations cfg)) a s))).
            currBlkNumber (snd (snd (iteration (sint (Confirmations cfg)) a s))) = Some (Number b + 1) \<and>
            (\<forall>c. currBlkNumber s = Some c \<longrightarrow> Number b = c) \<and>
            (0 < Confirmations cfg \<and> Confirmations cfg < 2 ^ 63 \<longrightarrow>
               (\<exists>head. recentBlkNumber (snd (snd (iteration (sint (Confirmations cfg)) a s))) = Some head
                      \<and> head \<ge> Number b + uint (Confirmations cfg)))) \<and>
         (\<forall>c. currBlkNumber s = Some c \<longrightarrow>
            currBlkNumber (snd (snd (iteration (sint (Confirmations cfg)) a s))) = Some c \<or>
            currBlkNumber (snd (snd (iteration (sint (Confirmations cfg)) a s))) = Some (c + 1))"
proof (intro conjI)
  show "sorted_wrt (<) (map Number (delivered (fst (runAsync cfg as))))"
    using loop_delivered_sorted [OF run] by (simp add: runAsync_def Let_def)
next
  let ?k = "sint (Confirmations cfg)"
  note it = iteration_delivers [OF one, of s ?k]
  have depth: "0 < ?k \<and> ?k = uint (Confirmations cfg)"
    if "0 < Confirmations cfg \<and> Confirmations cfg < 2 ^ 63"
    using that sint_small_depth [of "Confirmations cfg"] uint_pos_depth [of "Confirmations cfg"]
    by simp
  show "\<forall>b \<in> set (delivered (fst (iteration ?k a s))).
            currBlkNumber (snd (snd (iteration ?k a s))) = Some (Number b + 1) \<and>
            (\<forall>c. currBlkNumber s = Some c \<longrightarrow> Number b = c) \<and>
            (0 < Confirmations cfg \<and> Confirmations cfg < 2 ^ 63 \<longrightarrow>
               (\<exists>head. recentBlkNumber (snd (snd (iteration ?k a s))) = Some head
                      \<and> head \<ge> Number b + uint (Confirmations cfg)))"
  proof
    fix b assume b: "b \<in> set (delivered (fst (iteration ?k a s)))"
    with it have only: "delivered (fst (iteration ?k a s)) = [b]" by fastforce
    with it have f: "currBlkNumber (snd (snd (iteration ?k a s))) = Some (Number b + 1)"
      "\<forall>c. currBlkNumber s = Some c \<longrightarrow> Number b = c"
      "0 < ?k \<longrightarrow> (\<exists>h. recentBlkNumber (snd (snd (iteration ?k a s))) = Some h \<and> Number b + ?k \<le> h)"
      by auto
    have "\<exists>head. recentBlkNumber (snd (snd (iteration ?k a s))) = Some head
                      \<and> head \<ge> Number b + uint (Confirmations cfg)"
      if d: "0 < Confirmations cfg \<and> Confirmations cfg < 2 ^ 63"
      using f(3) depth [OF d] by auto
    then show "currBlkNumber (snd (snd (iteration ?k a s))) = Some (Number b + 1) \<and>
            (\<forall>c. currBlkNumber s = Some c \<longrightarrow> Number b = c) \<and>
            (0 < Confirmations cfg \<and> Confirmations cfg < 2 ^ 63 \<longrightarrow>
               (\<exists>head. recentBlkNumber (snd (snd (iteration ?k a s))) = Some head
                      \<and> head \<ge> Number b + uint (Confirmations cfg)))"
      using f(1) f(2) by blast
  qed
  show "\<forall>c. currBlkNumber s = Some c \<longrightarrow>
            currBlkNumber (snd (snd (iteration ?k a s))) = Some c \<or>
            currBlkNumber (snd (snd (iteration ?k a s))) = Some (c + 1)"
    using it by blast
qed

theorem C5_ordered_delivery_witness:
  "map Number (delivered (fst (runAsync \<lparr>StartBlock = None, Confirmations = 1\<rparr>
       [node 10 10, node 10 10, node 11 10, node 11 11, node 12 12]))) = [9, 10, 11] \<and>
   sorted_wrt (<) (map Number (delivered (fst (runAsync \<lparr>StartBlock = None, Confirmations = 1\<rparr>
       [node 10 10, node 10 10, node 11 10, node 11 11, node 12 12])))) \<and>
   iteration 1 (node 11 11)
       \<lparr>recentBlkNumber = Some 10, currBlkNumber = Some 10, delayBeforeIteration = True\<rparr>
     = ([Slept, CalledBlockNumber, CalledBlockByNumber (Some 10), Delivered \<lparr>Number = 10, Timestamp = 0\<rparr>],
        Continue,
        \<lparr>recentBlkNumber = Some 11, currBlkNumber = Some 11, delayBeforeIteration = False\<rparr>) \<and>
   (\<exists>head. recentBlkNumber (snd (snd (iteration 1 (node 11 11)
       \<lparr>recentBlkNumber = Some 10, currBlkNumber = Some 10, delayBeforeIteration = True\<rparr>))) = Some head
      \<and> head \<ge> 10 + 1)"
proof -
  let ?cfg = "\<lparr>StartBlock = None, Confirmations = 1\<rparr>"
  let ?s = "\<lparr>recentBlkNumber = Some 10, currBlkNumber = Some 10, delayBeforeIteration = True\<rparr>"
  have h1: "\<forall>a \<in> set [node 10 10, node 10 10, node 11 10, node 11 11, node 12 12].
      returns_requested a"
    by (simp add: node_returns_requested)
  have h2: "returns_requested (node 11 11)" by (rule node_returns_requested)
  have h3: "0 < Confirmations ?cfg \<and> Confirmations ?cfg < 2 ^ 63" by simp
  have k: "sint (Confirmations ?cfg) = 1" "uint (Confirmations ?cfg) = 1" by simp_all
  have v: "map Number (delivered (fst (runAsync ?cfg
       [node 10 10, node 10 10, node 11 10, node 11 11, node 12 12]))) = [9, 10, 11]"
    by (simp add: run_defs node_def)
  have i: "iteration 1 (node 11 11) ?s
     = ([Slept, CalledBlockNumber, CalledBlockByNumber (Some 10), Delivered \<lparr>Number = 10, Timestamp = 0\<rparr>],
        Continue,
        \<lparr>recentBlkNumber = Some 11, currBlkNumber = Some 11, delayBeforeIteration = False\<rparr>)"
    by (simp add: run_defs node_def)
  have m: "\<lparr>Number = 10, Timestamp = 0\<rparr> \<in> set (delivered (fst (iteration (sint (Confirmations ?cfg))
      (node 11 11) ?s)))"
    using i by (simp only: k) simp
  note t = C5_ordered_delivery [OF h1 h2, of ?cfg ?s]
  have srt: "sorted_wrt (<) (map Number (delivered (fst (runAsync ?cfg
       [node 10 10, node 10 10, node 11 10, node 11 11, node 12 12]))))"
    using t by blast
  have "\<exists>head. recentBlkNumber (snd (snd (iteration (sint (Confirmations ?cfg)) (node 11 11) ?s)))
        = Some head \<and> head \<ge> Number \<lparr>Number = 10, Timestamp = 0\<rparr> + uint (Confirmations ?cfg)"
    using t m h3 by blast
  then have bound: "\<exists>head. recentBlkNumber (snd (snd (iteration 1 (node 11 11) ?s))) = Some head
      \<and> head \<ge> 10 + 1"
    by (simp only: k Block.simps)
  show ?thesis using v srt i bound by blast
qed

text \<open>
  The claim as stated, for every run and every depth, fails in two ways. When the node
  answers a request with another block the loop takes the cursor from the answer: the
  heights 5 and then 3 are delivered, and with two confirmations block 7 is delivered at
  head height 7. And the depth \<open>2^63\<close>, positive as the \<open>uint\<close> of the configuration,
  is negative as the \<open>int64\<close> the loop reads: the head height is never queried and
  block 5 is delivered with no confirmation at all.
\<close>

theorem C5_counterexample:
  "map Number (delivered (fst (runAsync \<lparr>StartBlock = Some 5, Confirmations = 0\<rparr>
       [any_block 5, any_block 3]))) = [5, 3] \<and>
   \<not> sorted_wrt (<) (map Number (delivered (fst (runAsync \<lparr>StartBlock = Some 5, Confirmations = 0\<rparr>
       [any_block 5, any_block 3])))) \<and>
   map Number (delivered (fst (runAsync \<lparr>StartBlock = Some 5, Confirmations = 2\<rparr>
       [any_block 7]))) = [7] \<and>
   recentBlkNumber (snd (snd (runAsync \<lparr>StartBlock = Some 5, Confirmations = 2\<rparr> [any_block 7])))
     = Some 7 \<and>
   (0::64 word) < 9223372036854775808 \<and>
   runAsync \<lparr>StartBlock = Some 5, Confirmations = 9223372036854775808\<rparr> [node 5 5]
     = ([CalledBlockByNumber (Some 5), Delivered \<lparr>Number = 5, Timestamp = 0\<rparr>], Continue,
        \<lparr>recentBlkNumber = None, currBlkNumber = Some 6, delayBeforeIteration = False\<rparr>)"
  by (simp add: run_defs any_block_def node_def)

text \<open>
  C7 (as amended). An iteration whose head-height query fails delivers nothing, logs the
  error, leaves the current-height cursor as it is, asks for the delay and continues. An
  iteration whose block fetch fails delivers nothing, asks for the delay and continues;
  a cursor that was set stays as it is, the cached head height stays as it is unless this
  iteration has refreshed it, and the error is logged unless it is \<open>ErrNotFound\<close>, in
  which case nothing is logged. An iteration of the estimator whose fetch fails logs the
  error, leaves the estimator as it is and continues.
\<close>

theorem C7_background_errors:
  "(CalledBlockNumber \<in> set (fst (iteration k a s)) \<and> BlockNumber_rpc a = Inl err \<longrightarrow>
      fst (snd (iteration k a s)) = Continue \<and>
      delivered (fst (iteration k a s)) = [] \<and>
      delayBeforeIteration (snd (snd (iteration k a s))) \<and>
      currBlkNumber (snd (snd (iteration k a s))) = currBlkNumber s \<and>
      LogPrintf ''BlockNumber: %v'' [VError (Errorf ''eth_blockNumber: %v'' [VError err])]
        \<in> set (fst (iteration k a s))) \<and>
   (CalledBlockByNumber n \<in> set (fst (iteration k a s)) \<and> BlockByNumber_result a n = Inl err \<longrightarrow>
      fst (snd (iteration k a s)) = Continue \<and>
      delivered (fst (iteration k a s)) = [] \<and>
      delayBeforeIteration (snd (snd (iteration k a s))) \<and>
      (currBlkNumber s \<noteq> None \<longrightarrow> currBlkNumber (snd (snd (iteration k a s))) = currBlkNumber s) \<and>
      (CalledBlockNumber \<notin> set (fst (iteration k a s)) \<longrightarrow>
         recentBlkNumber (snd (snd (iteration k a s))) = recentBlkNumber s) \<and>
      (err = ErrNotFound \<longrightarrow> (\<forall>f args. LogPrintf f args \<notin> set (fst (iteration k a s)))) \<and>
      (err \<noteq> ErrNotFound \<longrightarrow>
         LogPrintf ''BlockByNumber: %v'' [VError err] \<in> set (fst (iteration k a s)))) \<and>
   (SuggestGasPrice_result t = Inl err \<and> \<not> (closed e \<and> ctxDoneFirst t) \<longrightarrow>
      estimator_iteration t e =
        ([Slept, LogPrintf ''gasestimator: SuggestGasPrice: %v'' [VError err]], Continue, e))"
proof (intro conjI impI)
  assume "SuggestGasPrice_result t = Inl err \<and> \<not> (closed e \<and> ctxDoneFirst t)"
  then show "estimator_iteration t e =
        ([Slept, LogPrintf ''gasestimator: SuggestGasPrice: %v'' [VError err]], Continue, e)"
    by (auto simp: estimator_iteration_def)
qed (use iteration_head_failure [of k a s err] iteration_fetch_failure [of n k a s err] in blast)+

theorem C7_background_errors_witness:
  "iteration 1 unreachable
       \<lparr>recentBlkNumber = Some 10, currBlkNumber = Some 10, delayBeforeIteration = False\<rparr>
     = ([CalledBlockNumber,
         LogPrintf ''BlockNumber: %v''
           [VError (Errorf ''eth_blockNumber: %v'' [VError (ErrorNew ''connection refused'')])]],
        Continue,
        \<lparr>recentBlkNumber = None, currBlkNumber = Some 10, delayBeforeIteration = True\<rparr>) \<and>
   iteration 1 (node 11 10)
       \<lparr>recentBlkNumber = Some 11, currBlkNumber = Some 11, delayBeforeIteration = False\<rparr>
     = ([CalledBlockNumber], Continue,
        \<lparr>recentBlkNumber = Some 11, currBlkNumber = Some 11, delayBeforeIteration = True\<rparr>) \<and>
   iteration 0 (node 11 10)
       \<lparr>recentBlkNumber = None, currBlkNumber = Some 11, delayBeforeIteration = False\<rparr>
     = ([CalledBlockByNumber (Some 11)], Continue,
        \<lparr>recentBlkNumber = None, currBlkNumber = Some 11, delayBeforeIteration = True\<rparr>) \<and>
   (\<forall>f args. LogPrintf f args \<notin> set (fst (iteration 0 (node 11 10)
       \<lparr>recentBlkNumber = None, currBlkNumber = Some 11, delayBeforeIteration = False\<rparr>))) \<and>
   LogPrintf ''BlockByNumber: %v'' [VError (ErrorNew ''connection refused'')]
     \<in> set (fst (iteration 0 unreachable
       \<lparr>recentBlkNumber = None, currBlkNumber = Some 11, delayBeforeIteration = False\<rparr>)) \<and>
   estimator_iteration \<lparr>ctxDoneFirst = False, SuggestGasPrice_result = Inl (ErrorNew ''timeout'')\<rparr>
       (newGasPriceEstimator 1)
     = ([Slept, LogPrintf ''gasestimator: SuggestGasPrice: %v'' [VError (ErrorNew ''timeout'')]],
        Continue, newGasPriceEstimator 1)"
proof -
  let ?s = "\<lparr>recentBlkNumber = None, currBlkNumber = Some 11, delayBeforeIteration = False\<rparr>"
  have e1: "iteration 1 unreachable
       \<lparr>recentBlkNumber = Some 10, currBlkNumber = Some 10, delayBeforeIteration = False\<rparr>
     = ([CalledBlockNumber,
         LogPrintf ''BlockNumber: %v''
           [VError (Errorf ''eth_blockNumber: %v'' [VError (ErrorNew ''connection refused'')])]],
        Continue,
        \<lparr>recentBlkNumber = None, currBlkNumber = Some 10, delayBeforeIteration = True\<rparr>)"
    by (simp add: run_defs unreachable_def)
  have e2: "iteration 1 (node 11 10)
       \<lparr>recentBlkNumber = Some 11, currBlkNumber = Some 11, delayBeforeIteration = False\<rparr>
     = ([CalledBlockNumber], Continue,
        \<lparr>recentBlkNumber = Some 11, currBlkNumber = Some 11, delayBeforeIteration = True\<rparr>)"
    by (simp add: run_defs node_def)
  have e3: "iteration 0 (node 11 10) ?s
     = ([CalledBlockByNumber (Some 11)], Continue,
        \<lparr>recentBlkNumber = None, currBlkNumber = Some 11, delayBeforeIteration = True\<rparr>)"
    by (simp add: run_defs node_def)
  have q3: "CalledBlockByNumber (Some 11) \<in> set (fst (iteration 0 (node 11 10) ?s))
      \<and> BlockByNumber_result (node 11 10) (Some 11) = Inl ErrNotFound"
    using e3 by (simp add: node_def)
  have e4: "iteration 0 unreachable ?s
     = ([CalledBlockByNumber (Some 11),
         LogPrintf ''BlockByNumber: %v'' [VError (ErrorNew ''connection refused'')]], Continue,
        \<lparr>recentBlkNumber = None, currBlkNumber = Some 11, delayBeforeIteration = True\<rparr>)"
    by (simp add: run_defs unreachable_def)
  have q4: "CalledBlockByNumber (Some 11) \<in> set (fst (iteration 0 unreachable ?s))
      \<and> BlockByNumber_result unreachable (Some 11) = Inl (ErrorNew ''connection refused'')"
    using e4 by (simp add: unreachable_def)
  have q5: "SuggestGasPrice_result \<lparr>ctxDoneFirst = False, SuggestGasPrice_result = Inl (ErrorNew ''timeout'')\<rparr>
        = Inl (ErrorNew ''timeout'')
      \<and> \<not> (closed (newGasPriceEstimator 1)
            \<and> ctxDoneFirst \<lparr>ctxDoneFirst = False, SuggestGasPrice_result = Inl (ErrorNew ''timeout'')\<rparr>)"
    by simp
  have w3: "\<forall>f args. LogPrintf f args \<notin> set (fst (iteration 0 (node 11 10) ?s))"
    using C7_background_errors [of 0 "node 11 10" ?s ErrNotFound "Some 11"] q3 by blast
  have w4: "LogPrintf ''BlockByNumber: %v'' [VError (ErrorNew ''connection refused'')]
     \<in> set (fst (iteration 0 unreachable ?s))"
    using C7_background_errors [of 0 unreachable ?s "ErrorNew ''connection refused''" "Some 11"] q4
    by blast
  have w5: "estimator_iteration \<lparr>ctxDoneFirst = False, SuggestGasPrice_result = Inl (ErrorNew ''timeout'')\<rparr>
       (newGasPriceEstimator 1)
     = ([Slept, LogPrintf ''gasestimator: SuggestGasPrice: %v'' [VError (ErrorNew ''timeout'')]],
        Continue, newGasPriceEstimator 1)"
    using C7_background_errors [where t = "\<lparr>ctxDoneFirst = False, SuggestGasPrice_result = Inl (ErrorNew ''timeout'')\<rparr>"
        and e = "newGasPriceEstimator 1" and err = "ErrorNew ''timeout''"] q5
    by blast
  show ?thesis using e1 e2 e3 w3 w4 w5 by blast
qed

text \<open>
  The claim as stated says that no cursor or cached value changes on a failing
  iteration. An unset cursor is set to head minus depth before the fetch that then fails
  (from unset to 9 here, the head height from unknown to 10), and a failed head-height
  query makes the cached head height unknown.
\<close>

theorem C7_counterexample:
  "BlockByNumber_result (node 10 8) (Some 9) = Inl ErrNotFound \<and>
   iteration 1 (node 10 8)
       \<lparr>recentBlkNumber = None, currBlkNumber = None, delayBeforeIteration = False\<rparr>
     = ([CalledBlockNumber, CalledBlockByNumber (Some 9)], Continue,
        \<lparr>recentBlkNumber = Some 10, currBlkNumber = Some 9, delayBeforeIteration = True\<rparr>) \<and>
   BlockNumber_rpc unreachable = Inl (ErrorNew ''connection refused'') \<and>
   recentBlkNumber (snd (snd (iteration 1 unreachable
       \<lparr>recentBlkNumber = Some 10, currBlkNumber = Some 10, delayBeforeIteration = False\<rparr>)))
     = None"
  by (simp add: run_defs node_def unreachable_def)

text \<open>
  C10. With the configured depth 0 no run ever queries the head height. If moreover no
  start block is configured, then as long as no fetch has succeeded the cursor is unset
  and every block request is made with nil; the first fetch that succeeds, with block
  \<open>b\<close>, was asked with nil and sets the cursor to \<open>b.Number + 1\<close>, and the iteration
  after it asks for that height.
\<close>

theorem C10_zero_confirmations:
  assumes zero: "Confirmations cfg = 0"
  shows "CalledBlockNumber \<notin> set (fst (runAsync cfg as)) \<and>
         (StartBlock cfg = None \<and> (\<forall>a \<in> set as. \<exists>err. BlockByNumber_result a None = Inl err) \<longrightarrow>
            currBlkNumber (snd (snd (runAsync cfg as))) = None \<and>
            (\<forall>n. CalledBlockByNumber n \<in> set (fst (runAsync cfg as)) \<longrightarrow> n = None) \<and>
            (\<forall>(a::answers) b. BlockByNumber_result a None = Inr b \<and>
                   \<not> (delayBeforeIteration (snd (snd (runAsync cfg as))) \<and> ctxDone a) \<longrightarrow>
               CalledBlockByNumber None \<in> set (fst (iteration 0 a (snd (snd (runAsync cfg as))))) \<and>
               currBlkNumber (snd (snd (iteration 0 a (snd (snd (runAsync cfg as))))))
                 = Some (Number b + 1) \<and>
               (\<forall>a'. CalledBlockByNumber (Some (Number b + 1))
                  \<in> set (fst (iteration 0 a' (snd (snd (iteration 0 a (snd (snd (runAsync cfg as)))))))))))"
proof (intro conjI impI)
  have k: "sint (Confirmations cfg) = 0" using zero by simp
  show "CalledBlockNumber \<notin> set (fst (runAsync cfg as))"
    using loop_no_head_query [of 0 as] by (simp add: runAsync_def k)
next
  have k: "sint (Confirmations cfg) = 0" using zero by simp
  assume h: "StartBlock cfg = None \<and> (\<forall>a \<in> set as. \<exists>err. BlockByNumber_result a None = Inl err)"
  let ?s0 = "\<lparr>recentBlkNumber = None, currBlkNumber = None, delayBeforeIteration = False\<rparr>"
  have run: "runAsync cfg as = loop 0 as ?s0" using h by (simp add: runAsync_def k)
  have l: "currBlkNumber (snd (snd (loop 0 as ?s0))) = None \<and>
         recentBlkNumber (snd (snd (loop 0 as ?s0))) = None \<and>
         (\<forall>n. CalledBlockByNumber n \<in> set (fst (loop 0 as ?s0)) \<longrightarrow> n = None)"
    using h by (intro loop_unset) simp_all
  show "currBlkNumber (snd (snd (runAsync cfg as))) = None" using l run by simp
  show "\<forall>n. CalledBlockByNumber n \<in> set (fst (runAsync cfg as)) \<longrightarrow> n = None" using l run by simp
  show "\<forall>(a::answers) b. BlockByNumber_result a None = Inr b \<and>
                   \<not> (delayBeforeIteration (snd (snd (runAsync cfg as))) \<and> ctxDone a) \<longrightarrow>
               CalledBlockByNumber None \<in> set (fst (iteration 0 a (snd (snd (runAsync cfg as))))) \<and>
               currBlkNumber (snd (snd (iteration 0 a (snd (snd (runAsync cfg as))))))
                 = Some (Number b + 1) \<and>
               (\<forall>a'. CalledBlockByNumber (Some (Number b + 1))
                  \<in> set (fst (iteration 0 a' (snd (snd (iteration 0 a (snd (snd (runAsync cfg as)))))))))"
  proof (intro allI impI)
    fix a :: answers and b
    let ?s = "snd (snd (runAsync cfg as))"
    assume ok: "BlockByNumber_result a None = Inr b \<and> \<not> (delayBeforeIteration ?s \<and> ctxDone a)"
    have c: "currBlkNumber ?s = None" and r: "recentBlkNumber ?s = None" using l run by simp_all
    from iteration_unset [OF order_refl c r, of a] ok
    have it: "CalledBlockByNumber None \<in> set (fst (iteration 0 a ?s))"
      "currBlkNumber (snd (snd (iteration 0 a ?s))) = Some (Number b + 1)"
      "\<not> delayBeforeIteration (snd (snd (iteration 0 a ?s)))"
      by blast+
    have "\<forall>a'. CalledBlockByNumber (Some (Number b + 1))
                  \<in> set (fst (iteration 0 a' (snd (snd (iteration 0 a ?s)))))"
      using iteration_requests_cursor [OF it(2) it(3) order_refl] by blast
    then show "CalledBlockByNumber None \<in> set (fst (iteration 0 a ?s)) \<and>
               currBlkNumber (snd (snd (iteration 0 a ?s))) = Some (Number b + 1) \<and>
               (\<forall>a'. CalledBlockByNumber (Some (Number b + 1))
                  \<in> set (fst (iteration 0 a' (snd (snd (iteration 0 a ?s))))))"
      using it by blast
  qed
qed

theorem C10_zero_confirmations_witness:
  "runAsync \<lparr>StartBlock = None, Confirmations = 0\<rparr> [unreachable, unreachable]
     = ([CalledBlockByNumber None,
         LogPrintf ''BlockByNumber: %v'' [VError (ErrorNew ''connection refused'')],
         Slept, CalledBlockByNumber None,
         LogPrintf ''BlockByNumber: %v'' [VError (ErrorNew ''connection refused'')]],
        Continue,
        \<lparr>recentBlkNumber = None, currBlkNumber = None, delayBeforeIteration = True\<rparr>) \<and>
   CalledBlockNumber \<notin> set (fst (runAsync \<lparr>StartBlock = None, Confirmations = 0\<rparr>
        [unreachable, unreachable])) \<and>
   CalledBlockByNumber None \<in> set (fst (iteration 0 (node 12 12)
        \<lparr>recentBlkNumber = None, currBlkNumber = None, delayBeforeIteration = True\<rparr>)) \<and>
   currBlkNumber (snd (snd (iteration 0 (node 12 12)
        \<lparr>recentBlkNumber = None, currBlkNumber = None, delayBeforeIteration = True\<rparr>))) = Some 13"
proof -
  let ?cfg = "\<lparr>StartBlock = None, Confirmations = 0\<rparr>"
  have r: "runAsync ?cfg [unreachable, unreachable]
     = ([CalledBlockByNumber None,
         LogPrintf ''BlockByNumber: %v'' [VError (ErrorNew ''connection refused'')],
         Slept, CalledBlockByNumber None,
         LogPrintf ''BlockByNumber: %v'' [VError (ErrorNew ''connection refused'')]],
        Continue,
        \<lparr>recentBlkNumber = None, currBlkNumber = None, delayBeforeIteration = True\<rparr>)"
    by (simp add: run_defs unreachable_def)
  have h1: "Confirmations ?cfg = 0" by simp
  have h2: "StartBlock ?cfg = None \<and>
      (\<forall>a \<in> set [unreachable, unreachable]. \<exists>err. BlockByNumber_result a None = Inl err)"
    by (simp add: unreachable_def)
  have h3: "BlockByNumber_result (node 12 12) None = Inr \<lparr>Number = 12, Timestamp = 0\<rparr> \<and>
      \<not> (delayBeforeIteration (snd (snd (runAsync ?cfg [unreachable, unreachable])))
         \<and> ctxDone (node 12 12))"
    by (simp add: node_def)
  note t = C10_zero_confirmations [OF h1, of "[unreachable, unreachable]"]
  have a: "CalledBlockNumber \<notin> set (fst (runAsync ?cfg [unreachable, unreachable]))"
    using t by blast
  have "CalledBlockByNumber None \<in> set (fst (iteration 0 (node 12 12)
          (snd (snd (runAsync ?cfg [unreachable, unreachable]))))) \<and>
        currBlkNumber (snd (snd (iteration 0 (node 12 12)
          (snd (snd (runAsync ?cfg [unreachable, unreachable])))))) = Some (Number \<lparr>Number = 12, Timestamp = 0\<rparr> + 1)"
    using t h2 h3 by blast
  then have b: "CalledBlockByNumber None \<in> set (fst (iteration 0 (node 12 12)
        \<lparr>recentBlkNumber = None, currBlkNumber = None, delayBeforeIteration = True\<rparr>)) \<and>
   currBlkNumber (snd (snd (iteration 0 (node 12 12)
        \<lparr>recentBlkNumber = None, currBlkNumber = None, delayBeforeIteration = True\<rparr>))) = Some 13"
    by (simp only: r snd_conv Block.simps) simp
  show ?thesis using r a b by blast
qed

section \<open>Facts about the chunks and the receipt loop\<close>

lemma chunk_loop_acc:
  "chunk_loop txs n i acc = acc @ chunk_loop txs n i []"
proof (induction "length txs - i" arbitrary: i acc rule: less_induct)
  case less
  show ?case
  proof (cases "0 < n \<and> i < length txs")
    case True
    let ?c = "take ((if i + n > length txs then length txs else i + n) - i) (drop i txs)"
    have a: "chunk_loop txs n i acc = chunk_loop txs n (i + n) (acc @ [?c])"
      using True by (subst chunk_loop.simps) (simp add: Let_def)
    have b: "chunk_loop txs n i [] = chunk_loop txs n (i + n) [?c]"
      using True by (subst chunk_loop.simps) (simp add: Let_def)
    have m: "length txs - (i + n) < length txs - i" using True by linarith
    have "chunk_loop txs n (i + n) (acc @ [?c]) = (acc @ [?c]) @ chunk_loop txs n (i + n) []"
      using less [OF m] .
    moreover have "chunk_loop txs n (i + n) [?c] = [?c] @ chunk_loop txs n (i + n) []"
      using less [OF m] .
    ultimately show ?thesis using a b by simp
  next
    case False
    have "chunk_loop txs n i acc = acc" using False by (subst chunk_loop.simps) auto
    moreover have "chunk_loop txs n i [] = []" using False by (subst chunk_loop.simps) auto
    ultimately show ?thesis by simp
  qed
qed

lemma chunk_loop_step:
  assumes "0 < n"
  shows "chunk_loop txs n i [] =
     (if i < length txs then take n (drop i txs) # chunk_loop txs n (i + n) [] else [])"
proof (cases "i < length txs")
  case True
  have t: "take ((if i + n > length txs then length txs else i + n) - i) (drop i txs)
      = take n (drop i txs)"
    using True by (auto simp: min_def)
  have "chunk_loop txs n i [] =
      chunk_loop txs n (i + n) ([] @ [take ((if i + n > length txs then length txs else i + n) - i) (drop i txs)])"
    using True assms by (subst chunk_loop.simps) (simp add: Let_def)
  also have "\<dots> = [take n (drop i txs)] @ chunk_loop txs n (i + n) []"
    using chunk_loop_acc [of txs n "i + n" "[take n (drop i txs)]"] t by simp
  finally show ?thesis using True by simp
next
  case False
  then show ?thesis by (subst chunk_loop.simps) simp
qed

lemma chunk_loop_props:
  assumes n: "0 < n"
  shows "concat (chunk_loop txs n i []) = drop i txs \<and>
         (\<forall>c \<in> set (chunk_loop txs n i []). 0 < length c \<and> length c \<le> n) \<and>
         (\<forall>c \<in> set (butlast (chunk_loop txs n i [])). length c = n)"
proof (induction "length txs - i" arbitrary: i rule: less_induct)
  case less
  show ?case
  proof (cases "i < length txs")
    case False
    then show ?thesis using chunk_loop_step [OF n, of txs i] by simp
  next
    case True
    let ?rest = "chunk_loop txs n (i + n) []"
    have eq: "chunk_loop txs n i [] = take n (drop i txs) # ?rest"
      using chunk_loop_step [OF n, of txs i] True by simp
    have "length txs - (i + n) < length txs - i" using True n by simp
    from less [OF this] have IH:
      "concat ?rest = drop (i + n) txs"
      "\<forall>c \<in> set ?rest. 0 < length c \<and> length c \<le> n"
      "\<forall>c \<in> set (butlast ?rest). length c = n"
      by simp_all
    have 1: "concat (chunk_loop txs n i []) = drop i txs"
      using eq IH(1) by (simp add: add.commute [of i n]) (metis append_take_drop_id drop_drop)
    have 2: "\<forall>c \<in> set (chunk_loop txs n i []). 0 < length c \<and> length c \<le> n"
      using eq IH(2) True n by auto
    have 3: "\<forall>c \<in> set (butlast (chunk_loop txs n i [])). length c = n"
    proof (cases "?rest = []")
      case True
      then show ?thesis using eq by simp
    next
      case False
      then have "i + n < length txs" using chunk_loop_step [OF n, of txs "i + n"] by (auto split: if_splits)
      then have "length (take n (drop i txs)) = n" by simp
      then show ?thesis using eq IH(3) False by simp
    qed
    show ?thesis using 1 2 3 by blast
  qed
qed

lemma reqs_eq:
  assumes "off + n \<le> length xs"
  shows "map (\<lambda>i. f (xs ! (off + i))) [0..<n] = map f (take n (drop off xs))"
proof (rule nth_equalityI)
  show "length (map (\<lambda>i. f (xs ! (off + i))) [0..<n]) = length (map f (take n (drop off xs)))"
    using assms by simp
next
  fix i assume "i < length (map (\<lambda>i. f (xs ! (off + i))) [0..<n])"
  then have i: "i < n" by simp
  then show "map (\<lambda>i. f (xs ! (off + i))) [0..<n] ! i = map f (take n (drop off xs)) ! i"
    using assms by simp
qed

lemma validate_ok:
  "\<forall>r \<in> set rs. \<exists>rc. r = Inr (Some rc) \<Longrightarrow>
   \<exists>rcs. validate num off i rs = Inr rcs \<and> length rcs = length rs"
proof (induction rs arbitrary: i)
  case Nil
  then show ?case by simp
next
  case (Cons r rs)
  then obtain rc where r: "r = Inr (Some rc)" by auto
  from Cons.IH [of "Suc i"] Cons.prems obtain rcs where
    "validate num off (Suc i) rs = Inr rcs" "length rcs = length rs" by auto
  then show ?case using r by simp
qed

lemma validate_fail:
  "\<not> (\<forall>r \<in> set rs. \<exists>rc. r = Inr (Some rc)) \<Longrightarrow> \<exists>e. validate num off i rs = Inl e"
proof (induction rs arbitrary: i)
  case Nil
  then show ?case by simp
next
  case (Cons r rs)
  show ?case
  proof (cases r)
    case (Inl err)
    then show ?thesis by simp
  next
    case (Inr x)
    show ?thesis
    proof (cases x)
      case None
      then show ?thesis using Inr by simp
    next
      case (Some rc)
      then have "\<not> (\<forall>r \<in> set rs. \<exists>rc. r = Inr (Some rc))" using Cons.prems Inr by simp
      from Cons.IH [OF this, of "Suc i"] obtain e where "validate num off (Suc i) rs = Inl e" by blast
      then show ?thesis using Inr Some by simp
    qed
  qed
qed

lemma batch_ok_Inl: "rpc off reqs = Inl err \<Longrightarrow> \<not> batch_ok rpc off reqs"
  by (simp add: batch_ok_def)

lemma batch_ok_Inr:
  "rpc off reqs = Inr answer \<Longrightarrow>
   batch_ok rpc off reqs \<longleftrightarrow> (\<forall>r \<in> set (map answer [0..<length reqs]). \<exists>rc. r = Inr (Some rc))"
proof -
  assume a: "rpc off reqs = Inr answer"
  have e: "(case answer i of Inl err \<Rightarrow> False | Inr None \<Rightarrow> False | Inr (Some receipt) \<Rightarrow> True)
      \<longleftrightarrow> (\<exists>rc. answer i = Inr (Some rc))" for i
    by (auto split: sum.splits option.splits)
  show ?thesis using a by (simp add: batch_ok_def list_all_iff e)
qed

lemma loadChunks_sent:
  assumes "off + length (concat chunks) \<le> length btxs"
    and "concat chunks = take (length (concat chunks)) (drop off btxs)"
  shows "\<exists>r. loadChunks rpc number btxs chunks off
              = Inr (expected_sent rpc off (map (map Hash) chunks), r) \<and>
             (if batches_ok rpc off (map (map Hash) chunks)
              then \<exists>rcs. r = Inr rcs \<and> length rcs = length (concat chunks)
              else \<exists>e. r = Inl e)"
  using assms
proof (induction chunks arbitrary: off)
  case Nil
  then show ?case by simp
next
  case (Cons c cs)
  let ?reqs = "map Hash c"
  have bound: "off + length c \<le> length btxs" using Cons.prems(1) by simp
  have split: "take (length c + length (concat cs)) (drop off btxs)
      = take (length c) (drop off btxs) @ take (length (concat cs)) (drop (off + length c) btxs)"
    by (simp add: take_add add.commute)
  have lc: "length (take (length c) (drop off btxs)) = length c" using bound by simp
  have "c @ concat cs = take (length c) (drop off btxs) @ take (length (concat cs)) (drop (off + length c) btxs)"
    using Cons.prems(2) split by simp
  then have c: "c = take (length c) (drop off btxs)"
    and cs: "concat cs = take (length (concat cs)) (drop (off + length c) btxs)"
    using lc by (simp_all add: append_eq_append_conv)
  have reqs: "map (\<lambda>i. Hash (btxs ! (off + i))) [0..<length c] = ?reqs"
    using reqs_eq [OF bound, of Hash] c by simp
  have nopanic: "\<not> off + length c > length btxs" using bound by simp
  have bound': "off + length c + length (concat cs) \<le> length btxs" using Cons.prems(1) by simp
  from Cons.IH [OF bound' cs] obtain r' where IH:
    "loadChunks rpc number btxs cs (off + length c)
       = Inr (expected_sent rpc (off + length c) (map (map Hash) cs), r')"
    "if batches_ok rpc (off + length c) (map (map Hash) cs)
     then \<exists>rcs. r' = Inr rcs \<and> length rcs = length (concat cs) else \<exists>e. r' = Inl e"
    by blast
  show ?case
  proof (cases "rpc off ?reqs")
    case (Inl err)
    have "loadChunks rpc number btxs (c # cs) off
        = Inr ([?reqs], Inl (Errorf ''getting transaction receipts (offset: %d, len: %d): %v''
                               [VNat off, VNat (length c), VError err]))"
      using nopanic reqs Inl by (simp add: Let_def)
    then show ?thesis using batch_ok_Inl [of rpc off ?reqs err] Inl by simp
  next
    case (Inr answer)
    show ?thesis
    proof (cases "batch_ok rpc off ?reqs")
      case False
      then have "\<not> (\<forall>r \<in> set (map answer [0..<length c]). \<exists>rc. r = Inr (Some rc))"
        using batch_ok_Inr [of rpc off ?reqs answer] Inr by simp
      from validate_fail [OF this, of number off 0] obtain e where
        "validate number off 0 (map answer [0..<length c]) = Inl e" by blast
      then have "loadChunks rpc number btxs (c # cs) off = Inr ([?reqs], Inl e)"
        using nopanic reqs Inr by (simp add: Let_def)
      then show ?thesis using False by simp
    next
      case True
      then have "\<forall>r \<in> set (map answer [0..<length c]). \<exists>rc. r = Inr (Some rc)"
        using batch_ok_Inr [of rpc off ?reqs answer] Inr by simp
      from validate_ok [OF this, of number off 0] obtain rcs where rcs:
        "validate number off 0 (map answer [0..<length c]) = Inr rcs" "length rcs = length c"
        by auto
      show ?thesis
      proof (cases r')
        case (Inl e)
        then have "loadChunks rpc number btxs (c # cs) off
            = Inr (?reqs # expected_sent rpc (off + length c) (map (map Hash) cs), Inl e)"
          using nopanic reqs Inr rcs(1) IH(1) by (simp add: Let_def)
        moreover have "\<not> batches_ok rpc (off + length c) (map (map Hash) cs)"
          using IH(2) Inl by (auto split: if_splits)
        ultimately show ?thesis using True by simp
      next
        case (Inr rest)
        then have "loadChunks rpc number btxs (c # cs) off
            = Inr (?reqs # expected_sent rpc (off + length c) (map (map Hash) cs), Inr (rcs @ rest))"
          using nopanic reqs \<open>rpc off ?reqs = Inr answer\<close> rcs(1) IH(1) by (simp add: Let_def)
        moreover have "batches_ok rpc (off + length c) (map (map Hash) cs)
            \<and> length rest = length (concat cs)"
          using IH(2) Inr by (auto split: if_splits)
        ultimately show ?thesis using True rcs(2) by simp
      qed
    qed
  qed
qed

lemma expected_sent_ok: "batches_ok rpc off rs \<Longrightarrow> expected_sent rpc off rs = rs"
  by (induction rs arbitrary: off) simp_all

lemma expected_sent_fail:
  "\<not> batches_ok rpc off rs \<Longrightarrow>
   \<exists>n < length rs. expected_sent rpc off rs = take (Suc n) rs \<and>
      batches_ok rpc off (take n rs) \<and>
      \<not> batch_ok rpc (off + length (concat (take n rs))) (rs ! n)"
proof (induction rs arbitrary: off)
  case Nil
  then show ?case by simp
next
  case (Cons r rs)
  show ?case
  proof (cases "batch_ok rpc off r")
    case False
    then show ?thesis by (intro exI [of _ 0]) simp
  next
    case True
    then have "\<not> batches_ok rpc (off + length r) rs" using Cons.prems by simp
    from Cons.IH [OF this] obtain n where n: "n < length rs"
      "expected_sent rpc (off + length r) rs = take (Suc n) rs"
      "batches_ok rpc (off + length r) (take n rs)"
      "\<not> batch_ok rpc (off + length r + length (concat (take n rs))) (rs ! n)"
      by blast
    show ?thesis using True n by (intro exI [of _ "Suc n"]) (simp add: add.assoc)
  qed
qed

lemma batches_ok_iff:
  "batches_ok rpc off rs \<longleftrightarrow>
   (\<forall>j < length rs. batch_ok rpc (off + length (concat (take j rs))) (rs ! j))"
proof (induction rs arbitrary: off)
  case Nil
  then show ?case by simp
next
  case (Cons r rs)
  have "(\<forall>j < length (r # rs). batch_ok rpc (off + length (concat (take j (r # rs)))) ((r # rs) ! j))
      \<longleftrightarrow> batch_ok rpc off r \<and>
          (\<forall>j < length rs. batch_ok rpc (off + length r + length (concat (take j rs))) (rs ! j))"
    (is "?L \<longleftrightarrow> ?R")
  proof
    assume L: ?L
    have "batch_ok rpc off r" using L [rule_format, of 0] by simp
    moreover have "batch_ok rpc (off + length r + length (concat (take j rs))) (rs ! j)"
      if "j < length rs" for j
      using L [rule_format, of "Suc j"] that by (simp add: add.assoc)
    ultimately show ?R by blast
  next
    assume R: ?R
    show ?L
    proof (intro allI impI)
      fix j assume "j < length (r # rs)"
      then show "batch_ok rpc (off + length (concat (take j (r # rs)))) ((r # rs) ! j)"
        using R by (cases j) (simp_all add: add.assoc)
    qed
  qed
  then show ?case using Cons.IH [of "off + length r"] by simp
qed

lemma concat_take_length:
  assumes "\<forall>c \<in> set (butlast cs). length c = k" and "m < length cs"
  shows "length (concat (take m cs)) = k * m"
proof -
  have t: "take m cs = take m (butlast cs)" using assms(2) by (simp add: take_butlast)
  have all: "\<forall>c \<in> set (take m cs). length c = k"
    using assms(1) t by (metis in_set_takeD)
  have "length (take m cs) = m" using assms(2) by simp
  moreover have "\<forall>c \<in> set xs. length c = k \<Longrightarrow> length (concat xs) = k * length xs" for xs :: "'a list list"
    by (induction xs) simp_all
  ultimately show ?thesis using all by metis
qed

lemma loadReceipts_unfold:
  assumes "btxs \<noteq> []"
    and "loadChunks rpc number btxs (chunk_loop btxs 500 0 []) 0 = Inr (sent, r0)"
  shows "loadReceipts rpc number btxs =
     Inr (sent, case r0 of Inl e \<Rightarrow> Inl e
                | Inr receipts \<Rightarrow> Inr (map (\<lambda>(btx, rcpt). assignReceipt btx rcpt) (zip btxs receipts)))"
  using assms by (cases r0) (simp_all add: loadReceipts_def chunkTransactions_def Let_def)


lemma chunks_501: "chunk_loop (replicate 501 tx0) 500 0 [] = [replicate 500 tx0, [tx0]]"
  by (simp add: chunk_loop_step)

lemma ct_501: "chunkTransactions (replicate 501 tx0) 500 = Inr [replicate 500 tx0, [tx0]]"
  by (simp add: chunkTransactions_def chunks_501)


section \<open>Claims about the client\<close>

text \<open>
  C9 (as amended). For a block with at least one transaction, \<open>chunkTransactions\<close> cuts
  the list into consecutive chunks: none is empty, each has at most 500 transactions, all
  but the last exactly 500, and concatenated they are the list. The receipt loop sends
  one batch per chunk, in order, asking for the hashes of the chunk, until a batch does
  not succeed. If every batch succeeds the batches sent are exactly the chunks' hashes,
  so every transaction's receipt is asked for exactly once, and the block's transactions
  are returned; otherwise an error is returned and the batches sent are those of the
  chunks up to and including the first whose batch did not succeed.
\<close>

theorem C9_receipt_batches:
  assumes nonempty: "btxs \<noteq> []"
  shows "\<exists>chunks sent r.
     chunkTransactions btxs 500 = Inr chunks \<and> concat chunks = btxs \<and>
     (\<forall>c \<in> set chunks. 0 < length c \<and> length c \<le> 500) \<and>
     (\<forall>c \<in> set (butlast chunks). length c = 500) \<and>
     loadReceipts rpc number btxs = Inr (sent, r) \<and>
     ((\<forall>j < length chunks. batch_ok rpc (500 * j) (map Hash (chunks ! j))) \<longrightarrow>
        sent = map (map Hash) chunks \<and> concat sent = map Hash btxs \<and>
        (\<exists>txs. r = Inr txs \<and> length txs = length btxs)) \<and>
     (\<not> (\<forall>j < length chunks. batch_ok rpc (500 * j) (map Hash (chunks ! j))) \<longrightarrow>
        (\<exists>e. r = Inl e) \<and>
        (\<exists>n < length chunks.
           (\<forall>j < n. batch_ok rpc (500 * j) (map Hash (chunks ! j))) \<and>
           \<not> batch_ok rpc (500 * n) (map Hash (chunks ! n)) \<and>
           sent = map (map Hash) (take (Suc n) chunks)))"
proof -
  let ?chunks = "chunk_loop btxs 500 0 []"
  let ?rs = "map (map Hash) ?chunks"
  have ct: "chunkTransactions btxs 500 = Inr ?chunks" by (simp add: chunkTransactions_def)
  have props: "concat ?chunks = btxs"
    "\<forall>c \<in> set ?chunks. 0 < length c \<and> length c \<le> 500"
    "\<forall>c \<in> set (butlast ?chunks). length c = 500"
    using chunk_loop_props [of 500 btxs 0] by simp_all
  have rs500: "\<forall>c \<in> set (butlast ?rs). length c = 500"
    using props(3) by (simp add: map_butlast [symmetric])
  have off: "length (concat (take j ?rs)) = 500 * j" if "j < length ?chunks" for j
    using concat_take_length [OF rs500, of j] that by simp
  have ok_iff: "batches_ok rpc 0 ?rs \<longleftrightarrow>
      (\<forall>j < length ?chunks. batch_ok rpc (500 * j) (map Hash (?chunks ! j)))"
    using off by (simp add: batches_ok_iff)
  have b1: "0 + length (concat ?chunks) \<le> length btxs" using props(1) by simp
  have b2: "concat ?chunks = take (length (concat ?chunks)) (drop 0 btxs)" using props(1) by simp
  from loadChunks_sent [OF b1 b2, of rpc number] obtain r0 where r0:
    "loadChunks rpc number btxs ?chunks 0 = Inr (expected_sent rpc 0 ?rs, r0)"
    "if batches_ok rpc 0 ?rs then \<exists>rcs. r0 = Inr rcs \<and> length rcs = length (concat ?chunks)
     else \<exists>e. r0 = Inl e"
    by blast
  let ?sent = "expected_sent rpc 0 ?rs"
  let ?r = "case r0 of Inl e \<Rightarrow> Inl e
            | Inr receipts \<Rightarrow> Inr (map (\<lambda>(btx, rcpt). assignReceipt btx rcpt) (zip btxs receipts))"
  have lr: "loadReceipts rpc number btxs = Inr (?sent, ?r)"
    using loadReceipts_unfold [OF nonempty r0(1)] .
  have good: "?sent = ?rs \<and> concat ?sent = map Hash btxs \<and>
        (\<exists>txs. ?r = Inr txs \<and> length txs = length btxs)"
    if ok: "\<forall>j < length ?chunks. batch_ok rpc (500 * j) (map Hash (?chunks ! j))"
  proof -
    have all: "batches_ok rpc 0 ?rs" using ok ok_iff by blast
    then have s: "?sent = ?rs" by (rule expected_sent_ok)
    have c: "concat ?rs = map Hash btxs" using props(1) by (simp add: map_concat [symmetric])
    from r0(2) all obtain rcs where "r0 = Inr rcs" "length rcs = length btxs"
      using props(1) by auto
    then have "\<exists>txs. ?r = Inr txs \<and> length txs = length btxs" by simp
    then show ?thesis using s c by simp
  qed
  have bad: "(\<exists>e. ?r = Inl e) \<and>
        (\<exists>n < length ?chunks.
           (\<forall>j < n. batch_ok rpc (500 * j) (map Hash (?chunks ! j))) \<and>
           \<not> batch_ok rpc (500 * n) (map Hash (?chunks ! n)) \<and>
           ?sent = map (map Hash) (take (Suc n) ?chunks))"
    if nok: "\<not> (\<forall>j < length ?chunks. batch_ok rpc (500 * j) (map Hash (?chunks ! j)))"
  proof -
    have nall: "\<not> batches_ok rpc 0 ?rs" using nok ok_iff by blast
    then have e: "\<exists>e. ?r = Inl e" using r0(2) by auto
    from expected_sent_fail [OF nall] obtain n where n: "n < length ?rs"
      "?sent = take (Suc n) ?rs" "batches_ok rpc 0 (take n ?rs)"
      "\<not> batch_ok rpc (0 + length (concat (take n ?rs))) (?rs ! n)"
      by blast
    have n': "n < length ?chunks" using n(1) by simp
    have before: "batch_ok rpc (500 * j) (map Hash (?chunks ! j))" if j: "j < n" for j
    proof -
      have "batch_ok rpc (0 + length (concat (take j (take n ?rs)))) (take n ?rs ! j)"
        using n(3) j n(1) by (simp add: batches_ok_iff)
      moreover have "take j (take n ?rs) = take j ?rs" using j by (simp add: min_def)
      moreover have "take n ?rs ! j = map Hash (?chunks ! j)" using j n' by simp
      moreover have "length (concat (take j ?rs)) = 500 * j" using off [of j] j n' by simp
      ultimately show ?thesis by simp
    qed
    have at: "\<not> batch_ok rpc (500 * n) (map Hash (?chunks ! n))"
      using n(4) off [OF n'] n' by simp
    have s: "?sent = map (map Hash) (take (Suc n) ?chunks)" using n(2) by (simp add: take_map)
    show ?thesis using e n' before at s by blast
  qed
  show ?thesis
    using ct props lr good bad
    by (intro exI [of _ ?chunks] exI [of _ ?sent] exI [of _ ?r]) blast
qed

theorem C9_receipt_batches_witness:
  "chunkTransactions (replicate 501 tx0) 500 = Inr [replicate 500 tx0, [tx0]] \<and>
   (\<exists>r. loadReceipts node_up 7 (replicate 501 tx0) = Inr ([replicate 500 0, [0]], r) \<and>
        (\<exists>txs. r = Inr txs \<and> length txs = 501)) \<and>
   (\<exists>e. loadReceipts node_down 7 (replicate 501 tx0) = Inr ([replicate 500 0], Inl e))"
proof -
  let ?btxs = "replicate 501 tx0"
  have h: "?btxs \<noteq> []" by simp
  from C9_receipt_batches [OF h, of node_up 7] obtain chunks sent r where t:
    "chunkTransactions ?btxs 500 = Inr chunks"
    "loadReceipts node_up 7 ?btxs = Inr (sent, r)"
    "(\<forall>j < length chunks. batch_ok node_up (500 * j) (map Hash (chunks ! j))) \<longrightarrow>
        sent = map (map Hash) chunks \<and> concat sent = map Hash ?btxs \<and>
        (\<exists>txs. r = Inr txs \<and> length txs = length ?btxs)"
    by blast
  have c: "chunks = [replicate 500 tx0, [tx0]]" using t(1) ct_501 by simp
  have ok: "batch_ok node_up off reqs" for off reqs
    by (simp add: batch_ok_def node_up_def list_all_iff)
  have "sent = map (map Hash) chunks \<and> (\<exists>txs. r = Inr txs \<and> length txs = length ?btxs)"
    using t(3) ok by blast
  then have "sent = [replicate 500 0, [0]] \<and> (\<exists>txs. r = Inr txs \<and> length txs = 501)"
    using c by (simp add: tx0_def)
  then have up: "\<exists>r. loadReceipts node_up 7 ?btxs = Inr ([replicate 500 0, [0]], r) \<and>
        (\<exists>txs. r = Inr txs \<and> length txs = 501)"
    using t(2) by blast
  from C9_receipt_batches [OF h, of node_down 7] obtain chunks' sent' r' where d:
    "chunkTransactions ?btxs 500 = Inr chunks'"
    "loadReceipts node_down 7 ?btxs = Inr (sent', r')"
    "\<not> (\<forall>j < length chunks'. batch_ok node_down (500 * j) (map Hash (chunks' ! j))) \<longrightarrow>
        (\<exists>e. r' = Inl e) \<and>
        (\<exists>n < length chunks'.
           (\<forall>j < n. batch_ok node_down (500 * j) (map Hash (chunks' ! j))) \<and>
           \<not> batch_ok node_down (500 * n) (map Hash (chunks' ! n)) \<and>
           sent' = map (map Hash) (take (Suc n) chunks'))"
    by blast
  have c': "chunks' = [replicate 500 tx0, [tx0]]" using d(1) ct_501 by simp
  have down: "\<not> batch_ok node_down off reqs" for off reqs
    by (simp add: batch_ok_def node_down_def)
  have "\<not> (\<forall>j < length chunks'. batch_ok node_down (500 * j) (map Hash (chunks' ! j)))"
    using down c' by auto
  with d(3) obtain e n where e: "r' = Inl e" and n: "n < length chunks'"
    "\<forall>j < n. batch_ok node_down (500 * j) (map Hash (chunks' ! j))"
    "sent' = map (map Hash) (take (Suc n) chunks')"
    by blast
  have "n = 0" using n(2) down by (cases n) auto
  then have "sent' = [replicate 500 0]" using n(3) c' by (simp add: tx0_def)
  then have dn: "\<exists>e. loadReceipts node_down 7 ?btxs = Inr ([replicate 500 0], Inl e)"
    using d(2) e by blast
  show ?thesis using ct_501 up dn by blast
qed

text \<open>
  The claim as stated, one batch per chunk and every receipt asked for once for every
  block, fails when a batch call fails: \<open>getBlock\<close> returns the error at once, and of
  501 transactions only the first chunk of 500 has been asked for.
\<close>

theorem C9_counterexample:
  "chunkTransactions (replicate 501 tx0) 500 = Inr [replicate 500 tx0, [tx0]] \<and>
   loadReceipts node_down 7 (replicate 501 tx0)
     = Inr ([replicate 500 0],
            Inl (Errorf ''getting transaction receipts (offset: %d, len: %d): %v''
                   [VNat 0, VNat 500, VError (ErrorNew ''timeout'')]))"
proof -
  have h: "Hash tx0 = 0" by (simp add: tx0_def)
  have reqs: "map (\<lambda>i. Hash (replicate 501 tx0 ! i)) [0..<500] = replicate 500 0"
    using reqs_eq [of 0 500 "replicate 501 tx0" Hash] by (simp add: h)
  show ?thesis by (simp add: loadReceipts_def ct_501 node_down_def reqs Let_def)
qed

end
